theory Spec2Isabelle
  imports Main
begin

section \<open>Text and the character tables\<close>

text \<open>
  The candidate query is a Python \<^verbatim>\<open>str\<close>: a sequence of code points, modelled as a list of
  natural numbers. A literal of the source is written as an Isabelle string and turned into
  code points by \<open>str_of\<close>.
\<close>

type_synonym str = "nat list"

definition ch :: "char \<Rightarrow> nat" where
  "ch c = of_char c"

definition str_of :: "string \<Rightarrow> str" where
  "str_of s = map ch s"

fun in_ranges :: "nat \<Rightarrow> (nat \<times> nat) list \<Rightarrow> bool" where
  "in_ranges n [] = False"
| "in_ranges n ((lo, hi) # rs) = ((lo \<le> n \<and> n \<le> hi) \<or> in_ranges n rs)"

text \<open>
  What \<^verbatim>\<open>str.strip()\<close> and, in \<^verbatim>\<open>re\<close>, the classes \<^verbatim>\<open>\s\<close>, \<^verbatim>\<open>\w\<close>, \<^verbatim>\<open>\d\<close> and the flag \<^verbatim>\<open>re.I\<close> do
  with a code point is read from the tables of the Unicode database that the interpreter
  carries. The tables are no part of the program and differ between versions of the
  interpreter, so they are a parameter:
  \<^item> \<open>isspace\<close>, \<open>isalnum\<close>, \<open>isdecimal\<close> are \<^verbatim>\<open>str.isspace\<close>, \<^verbatim>\<open>str.isalnum\<close>, \<^verbatim>\<open>str.isdecimal\<close>
    of a single character;
  \<^item> \<open>tolower\<close> is the lower-case mapping of a character and \<open>iscased\<close> says whether a
    character has another case (\<^verbatim>\<open>_sre.unicode_tolower\<close>, \<^verbatim>\<open>_sre.unicode_iscased\<close>);
  \<^item> \<open>extra_cases\<close> gives, for a lower-case character, the other lower-case characters with
    the same upper case (the table \<^verbatim>\<open>_EXTRA_CASES\<close> of \<^verbatim>\<open>re\<close>): dotless i for i, long s for s.
\<close>

record ucd =
  isspace :: "nat \<Rightarrow> bool"
  isalnum :: "nat \<Rightarrow> bool"
  isdecimal :: "nat \<Rightarrow> bool"
  tolower :: "nat \<Rightarrow> nat"
  iscased :: "nat \<Rightarrow> bool"
  extra_cases :: "nat \<Rightarrow> nat list"

text \<open>
  What is assumed of the tables: on ASCII they are the ASCII classes and mappings;
  whitespace is not alphanumeric; a decimal digit is alphanumeric; and a character whose
  lower case is an ASCII letter, the dotless i (305) or the long s (383) is alphanumeric.
  These hold of the Unicode database: the characters that \<^verbatim>\<open>str.isspace\<close> takes are separators
  and controls, none of them a letter or a number; the decimal digits are numbers; and the
  characters that lower to an ASCII letter, to 305 or to 383 are the ASCII letters, the
  capital I with dot (304), the Kelvin sign (8490), 305 and 383, all of them letters.
\<close>

definition ucd_ok :: "ucd \<Rightarrow> bool" where
  "ucd_ok U \<longleftrightarrow>
     (\<forall>n < 128.
        isspace U n = in_ranges n [(9, 13), (28, 32)] \<and>
        isalnum U n = in_ranges n [(48, 57), (65, 90), (97, 122)] \<and>
        isdecimal U n = in_ranges n [(48, 57)] \<and>
        tolower U n = (if in_ranges n [(65, 90)] then n + 32 else n) \<and>
        iscased U n = in_ranges n [(65, 90), (97, 122)] \<and>
        extra_cases U n = (if n = 105 then [305] else if n = 115 then [383] else [])) \<and>
     (\<forall>n. isspace U n \<longrightarrow> \<not> isalnum U n) \<and>
     (\<forall>n. isdecimal U n \<longrightarrow> isalnum U n) \<and>
     (\<forall>n. in_ranges (tolower U n) [(97, 122), (305, 305), (383, 383)] \<longrightarrow> isalnum U n)"

text \<open>
  A table to evaluate with. It is the interpreter's on U+0000 .. U+00FF, on every
  whitespace character, and on the capital I with dot (304), the dotless i (305), the long s
  (383), the Greek mu (956), the Arabic-Indic digits (1632 .. 1641) and the Kelvin sign
  (8490); every other code point is taken as a symbol without case.
\<close>

definition ucd_sample :: ucd where
  "ucd_sample =
     \<lparr>isspace = (\<lambda>n. in_ranges n
        [(9, 13), (28, 32), (133, 133), (160, 160), (5760, 5760), (8192, 8202), (8232, 8233),
         (8239, 8239), (8287, 8287), (12288, 12288)]),
      isalnum = (\<lambda>n. in_ranges n
        [(48, 57), (65, 90), (97, 122), (170, 170), (178, 179), (181, 181), (185, 186),
         (188, 190), (192, 214), (216, 246), (248, 255), (304, 305), (383, 383), (956, 956),
         (1632, 1641), (8490, 8490)]),
      isdecimal = (\<lambda>n. in_ranges n [(48, 57), (1632, 1641)]),
      tolower = (\<lambda>n. if in_ranges n [(65, 90), (192, 214), (216, 222)] then n + 32
                     else if n = 304 then 105 else if n = 8490 then 107 else n),
      iscased = (\<lambda>n. in_ranges n
        [(65, 90), (97, 122), (181, 181), (192, 214), (216, 246), (248, 255), (304, 305),
         (383, 383), (956, 956), (8490, 8490)]),
      extra_cases = (\<lambda>n. if n = 105 then [305] else if n = 115 then [383]
                          else if n = 181 then [956] else if n = 305 then [105]
                          else if n = 383 then [115] else if n = 956 then [181] else [])\<rparr>"

definition is_space :: "ucd \<Rightarrow> nat \<Rightarrow> bool" where
  \<comment> \<open>\<^verbatim>\<open>\s\<close>, and what \<^verbatim>\<open>str.strip()\<close> removes\<close>
  "is_space U c = isspace U c"

definition is_digit :: "ucd \<Rightarrow> nat \<Rightarrow> bool" where
  \<comment> \<open>\<^verbatim>\<open>\d\<close>\<close>
  "is_digit U c = isdecimal U c"

definition is_word :: "ucd \<Rightarrow> nat \<Rightarrow> bool" where
  \<comment> \<open>\<^verbatim>\<open>\w\<close>: alphanumeric, or the underscore\<close>
  "is_word U c = (isalnum U c \<or> c = ch CHR ''_'')"

definition same_ignoring_case :: "ucd \<Rightarrow> nat \<Rightarrow> nat \<Rightarrow> bool" where
  \<comment> \<open>how \<^verbatim>\<open>re.I\<close> compares a character \<open>x\<close> of the text with a literal \<open>c\<close> of a pattern: a
      literal without case matches itself; otherwise the lower case of \<open>x\<close> is the lower case
      of \<open>c\<close> or one of its extra cases\<close>
  "same_ignoring_case U c x =
     (if iscased U c then tolower U x \<in> set (tolower U c # extra_cases U (tolower U c))
      else x = c)"

definition strip :: "ucd \<Rightarrow> str \<Rightarrow> str" where
  \<comment> \<open>\<^verbatim>\<open>sql.strip()\<close>\<close>
  "strip U s = rev (dropWhile (is_space U) (rev (dropWhile (is_space U) s)))"

definition rstrip :: "str \<Rightarrow> str \<Rightarrow> str" where
  \<comment> \<open>\<^verbatim>\<open>s.rstrip(chars)\<close>: every trailing character that is among \<open>chars\<close> goes\<close>
  "rstrip chars s = rev (dropWhile (\<lambda>x. x \<in> set chars) (rev s))"

section \<open>The regular expressions\<close>

text \<open>
  The fragment of Python's \<^verbatim>\<open>re\<close> syntax that the four patterns of \<^verbatim>\<open>_run\<close> use. Every
  pattern is compiled with \<^verbatim>\<open>re.I\<close>, so a literal is compared ignoring case.
\<close>

datatype rx =
    Eps
  | Lit nat
  | Space
  | Digit
  | WordB
  | Bol
  | Seq rx rx
  | Alt rx rx
  | Star rx

text \<open>
  A cursor is a position in the subject: the character before it, if any, and the text
  from it on. Matching a pattern at a cursor gives the cursors where a match can end, the
  longest repetition first. A repetition goes on only after a step that has read something;
  the patterns here repeat nothing but a single character class.
\<close>

type_synonym cursor = "nat option \<times> str"

definition word_before :: "ucd \<Rightarrow> nat option \<Rightarrow> bool" where
  "word_before U p = (case p of None \<Rightarrow> False | Some c \<Rightarrow> is_word U c)"

definition word_after :: "ucd \<Rightarrow> str \<Rightarrow> bool" where
  "word_after U xs = (case xs of [] \<Rightarrow> False | x # _ \<Rightarrow> is_word U x)"

fun one :: "(nat \<Rightarrow> bool) \<Rightarrow> cursor \<Rightarrow> cursor list" where
  "one P (p, []) = []"
| "one P (p, x # xs) = (if P x then [(Some x, xs)] else [])"

function rmatch :: "ucd \<Rightarrow> rx \<Rightarrow> cursor \<Rightarrow> cursor list" where
  "rmatch U Eps cu = [cu]"
| "rmatch U (Lit c) cu = one (same_ignoring_case U c) cu"
| "rmatch U Space cu = one (is_space U) cu"
| "rmatch U Digit cu = one (is_digit U) cu"
| "rmatch U WordB cu = (if word_before U (fst cu) \<noteq> word_after U (snd cu) then [cu] else [])"
| "rmatch U Bol cu = (if fst cu = None then [cu] else [])"
| "rmatch U (Seq a b) cu = concat (map (rmatch U b) (rmatch U a cu))"
| "rmatch U (Alt a b) cu = rmatch U a cu @ rmatch U b cu"
| "rmatch U (Star a) cu =
     concat (map (rmatch U (Star a))
       (filter (\<lambda>cu'. length (snd cu') < length (snd cu)) (rmatch U a cu))) @ [cu]"
  by pat_completeness auto
termination
  by (relation "measures [\<lambda>(U, r, cu). size r, \<lambda>(U, r, cu). length (snd cu)]") auto

fun search_from :: "ucd \<Rightarrow> rx \<Rightarrow> nat option \<Rightarrow> str \<Rightarrow> bool" where
  \<comment> \<open>the scan of \<^verbatim>\<open>re.search\<close>: try the pattern at every position, left to right\<close>
  "search_from U r p [] = (rmatch U r (p, []) \<noteq> [])"
| "search_from U r p (x # xs) =
     (if rmatch U r (p, x # xs) \<noteq> [] then True else search_from U r (Some x) xs)"

definition re_search :: "ucd \<Rightarrow> rx \<Rightarrow> str \<Rightarrow> bool" where
  \<comment> \<open>\<^verbatim>\<open>re.search(pattern, s)\<close> is not \<^verbatim>\<open>None\<close>\<close>
  "re_search U r s = search_from U r None s"

definition re_match :: "ucd \<Rightarrow> rx \<Rightarrow> str \<Rightarrow> bool" where
  \<comment> \<open>\<^verbatim>\<open>re.match(pattern, s)\<close> is not \<^verbatim>\<open>None\<close>\<close>
  "re_match U r s = (rmatch U r (None, s) \<noteq> [])"

fun lit :: "string \<Rightarrow> rx" where
  "lit [] = Eps"
| "lit (c # cs) = Seq (Lit (ch c)) (lit cs)"

definition Plus :: "rx \<Rightarrow> rx" where
  "Plus r = Seq r (Star r)"

definition write_rx :: rx where
  \<comment> \<open>\<^verbatim>\<open>\b(INSERT|UPDATE|DELETE|DROP|TRUNCATE|ALTER|CREATE|REPLACE)\b\<close>\<close>
  "write_rx = Seq WordB (Seq
     (Alt (lit ''INSERT'') (Alt (lit ''UPDATE'') (Alt (lit ''DELETE'') (Alt (lit ''DROP'')
     (Alt (lit ''TRUNCATE'') (Alt (lit ''ALTER'') (Alt (lit ''CREATE'') (lit ''REPLACE''))))))))
     WordB)"

definition select_rx :: rx where
  \<comment> \<open>\<^verbatim>\<open>(?is)^\s*select\b\<close>\<close>
  "select_rx = Seq Bol (Seq (Star Space) (Seq (lit ''select'') WordB))"

definition limit_rx :: rx where
  \<comment> \<open>\<^verbatim>\<open>\blimit\s+\d+\b\<close>\<close>
  "limit_rx = Seq WordB (Seq (lit ''limit'') (Seq (Plus Space) (Seq (Plus Digit) WordB)))"

definition aggregate_rx :: rx where
  \<comment> \<open>\<^verbatim>\<open>\bcount\(|\bgroup\s+by\b|\bsum\(|\bavg\(|\bmax\(|\bmin\(\<close>\<close>
  "aggregate_rx =
     Alt (Seq WordB (lit ''count(''))
    (Alt (Seq WordB (Seq (lit ''group'') (Seq (Plus Space) (Seq (lit ''by'') WordB))))
    (Alt (Seq WordB (lit ''sum(''))
    (Alt (Seq WordB (lit ''avg(''))
    (Alt (Seq WordB (lit ''max(''))
         (Seq WordB (lit ''min(''))))))"

section \<open>The admission filter\<close>

datatype reason = WriteOperationForbidden | MultipleStatementsForbidden | OnlySelectAllowed

datatype verdict = Accepted str | Rejected reason

definition normalize :: "ucd \<Rightarrow> str \<Rightarrow> str" where
  \<comment> \<open>\<^verbatim>\<open>s = sql.strip().rstrip(";")\<close>\<close>
  "normalize U sql = rstrip (str_of '';'') (strip U sql)"

definition bounded :: "ucd \<Rightarrow> str \<Rightarrow> str" where
  \<comment> \<open>the conditional \<^verbatim>\<open>s += " LIMIT 200"\<close>\<close>
  "bounded U s =
     (if \<not> re_search U limit_rx s \<and> \<not> re_search U aggregate_rx s
      then s @ str_of '' LIMIT 200'' else s)"

definition admit :: "ucd \<Rightarrow> str \<Rightarrow> verdict" where
  "admit U sql =
     (let s = normalize U sql in
      if re_search U write_rx s then Rejected WriteOperationForbidden
      else if ch CHR '';'' \<in> set s then Rejected MultipleStatementsForbidden
      else if \<not> re_match U select_rx s then Rejected OnlySelectAllowed
      else Accepted (bounded U s))"

section \<open>The execution adapter and \<^verbatim>\<open>SafeSQLTool._run\<close>\<close>

text \<open>
  The database is outside the program. An engine says what its calls do: whether
  \<^verbatim>\<open>engine.connect()\<close> hands out a connection or raises, and what
  \<^verbatim>\<open>conn.exec_driver_sql(s)\<close> and then \<^verbatim>\<open>result.fetchall()\<close> and \<^verbatim>\<open>result.keys()\<close>
  give for a statement. A raised exception is an instance of \<^verbatim>\<open>Exception\<close>, carried with
  the text that \<^verbatim>\<open>str(e)\<close> gives. A call that may raise returns a sum, \<open>Inl\<close> the exception.
\<close>

datatype exn = Exception (message: str)

record 'v cursor_result =
  keys :: "str list"
  fetchall :: "exn + 'v list list"

record 'v engine =
  connect :: "exn option"
  exec_driver_sql :: "str \<Rightarrow> exn + 'v cursor_result"

text \<open>What reaches the database during one call, in order.\<close>

datatype event = Connect | Execute str | Close

text \<open>The value \<^verbatim>\<open>_run\<close> returns: a string, or the dictionary of columns and rows.\<close>

datatype 'v reply = Str str | Payload (columns: "str list") (rows: "'v list list")

definition with_block :: "'v engine \<Rightarrow> str \<Rightarrow> (exn + 'v reply) \<times> event list" where
  \<comment> \<open>the body of the \<^verbatim>\<open>try\<close>: the \<^verbatim>\<open>with engine.connect() as conn\<close> block\<close>
  "with_block eng s =
     (case connect eng of
        Some e \<Rightarrow> (Inl e, [Connect])
      | None \<Rightarrow>
          (case exec_driver_sql eng s of
             Inl e \<Rightarrow> (Inl e, [Connect, Execute s, Close])
           | Inr result \<Rightarrow>
               (case fetchall result of
                  Inl e \<Rightarrow> (Inl e, [Connect, Execute s, Close])
                | Inr rws \<Rightarrow>
                    (let cols = (if keys result \<noteq> [] then keys result else [])
                     in (Inr (Payload cols (map (\<lambda>r. r) rws)), [Connect, Execute s, Close])))))"

definition run :: "ucd \<Rightarrow> 'v engine \<Rightarrow> str \<Rightarrow> (exn + 'v reply) \<times> event list" where
  \<comment> \<open>\<^verbatim>\<open>SafeSQLTool._run\<close> of \<^verbatim>\<open>03_guardrailed_agent.py\<close>; \<open>Inl\<close> would be an exception
      that leaves the method\<close>
  "run U eng sql =
     (let s = rstrip (str_of '';'') (strip U sql) in
      if re_search U write_rx s
      then (Inr (Str (str_of ''ERROR: write operations are not allowed.'')), [])
      else if ch CHR '';'' \<in> set s
      then (Inr (Str (str_of ''ERROR: multiple statements are not allowed.'')), [])
      else if \<not> re_match U select_rx s
      then (Inr (Str (str_of ''ERROR: only SELECT statements are allowed.'')), [])
      else
        (let s' = (if \<not> re_search U limit_rx s \<and> \<not> re_search U aggregate_rx s
                   then s @ str_of '' LIMIT 200'' else s)
         in case with_block eng s' of
              (Inl e, tr) \<Rightarrow> (Inr (Str (str_of ''ERROR: '' @ message e)), tr)
            | (Inr out, tr) \<Rightarrow> (Inr out, tr)))"

subsection \<open>The second script\<close>

text \<open>\<^verbatim>\<open>SafeSQLTool._run\<close> of \<^verbatim>\<open>04_complex_queries.py\<close>, with the patterns as that file spells them.\<close>

definition write_rx_04 :: rx where
  \<comment> \<open>\<^verbatim>\<open>\b(INSERT|UPDATE|DELETE|DROP|TRUNCATE|ALTER|CREATE|REPLACE)\b\<close>\<close>
  "write_rx_04 = Seq WordB (Seq
     (Alt (lit ''INSERT'') (Alt (lit ''UPDATE'') (Alt (lit ''DELETE'') (Alt (lit ''DROP'')
     (Alt (lit ''TRUNCATE'') (Alt (lit ''ALTER'') (Alt (lit ''CREATE'') (lit ''REPLACE''))))))))
     WordB)"

definition select_rx_04 :: rx where
  \<comment> \<open>\<^verbatim>\<open>(?is)^\s*select\b\<close>\<close>
  "select_rx_04 = Seq Bol (Seq (Star Space) (Seq (lit ''select'') WordB))"

definition limit_rx_04 :: rx where
  \<comment> \<open>\<^verbatim>\<open>\blimit\s+\d+\b\<close>\<close>
  "limit_rx_04 = Seq WordB (Seq (lit ''limit'') (Seq (Plus Space) (Seq (Plus Digit) WordB)))"

definition aggregate_rx_04 :: rx where
  \<comment> \<open>\<^verbatim>\<open>\bcount\(|\bgroup\s+by\b|\bsum\(|\bavg\(|\bmax\(|\bmin\(\<close>\<close>
  "aggregate_rx_04 =
     Alt (Seq WordB (lit ''count(''))
    (Alt (Seq WordB (Seq (lit ''group'') (Seq (Plus Space) (Seq (lit ''by'') WordB))))
    (Alt (Seq WordB (lit ''sum(''))
    (Alt (Seq WordB (lit ''avg(''))
    (Alt (Seq WordB (lit ''max(''))
         (Seq WordB (lit ''min(''))))))"

definition run_04 :: "ucd \<Rightarrow> 'v engine \<Rightarrow> str \<Rightarrow> (exn + 'v reply) \<times> event list" where
  "run_04 U eng sql =
     (let s = rstrip (str_of '';'') (strip U sql) in
      if re_search U write_rx_04 s
      then (Inr (Str (str_of ''ERROR: write operations are not allowed.'')), [])
      else if ch CHR '';'' \<in> set s
      then (Inr (Str (str_of ''ERROR: multiple statements are not allowed.'')), [])
      else if \<not> re_match U select_rx_04 s
      then (Inr (Str (str_of ''ERROR: only SELECT statements are allowed.'')), [])
      else
        (let s' = (if \<not> re_search U limit_rx_04 s \<and> \<not> re_search U aggregate_rx_04 s
                   then s @ str_of '' LIMIT 200'' else s)
         in case with_block eng s' of
              (Inl e, tr) \<Rightarrow> (Inr (Str (str_of ''ERROR: '' @ message e)), tr)
            | (Inr out, tr) \<Rightarrow> (Inr out, tr)))"

section \<open>The specification's vocabulary\<close>

text \<open>
  The rules of the admission filter as the specification words them. A text is a token up
  to case when it has the token's length and each of its characters is the token's
  character ignoring case. A token occurs as a whole word when the text splits into what is
  before it, the token up to case, and what is after it, with no word character touching it
  on either side.
\<close>

definition same_word :: "ucd \<Rightarrow> str \<Rightarrow> string \<Rightarrow> bool" where
  "same_word U w kw = list_all2 (\<lambda>x c. same_ignoring_case U (ch c) x) w kw"

definition starts_word :: "ucd \<Rightarrow> str \<Rightarrow> bool" where
  \<comment> \<open>on the text before a token: no word character touches the token\<close>
  "starts_word U pre = (pre = [] \<or> \<not> is_word U (last pre))"

definition ends_word :: "ucd \<Rightarrow> str \<Rightarrow> bool" where
  \<comment> \<open>on the text after a token\<close>
  "ends_word U post = (post = [] \<or> \<not> is_word U (hd post))"

definition write_keywords :: "string list" where
  "write_keywords =
     [''INSERT'', ''UPDATE'', ''DELETE'', ''DROP'', ''TRUNCATE'', ''ALTER'', ''CREATE'', ''REPLACE'']"

definition has_write_keyword :: "ucd \<Rightarrow> str \<Rightarrow> bool" where
  "has_write_keyword U s =
     (\<exists>kw \<in> set write_keywords. \<exists>pre w post.
        s = pre @ w @ post \<and> starts_word U pre \<and> same_word U w kw \<and> ends_word U post)"

definition begins_with_select :: "ucd \<Rightarrow> str \<Rightarrow> bool" where
  "begins_with_select U s =
     (\<exists>ws w post. s = ws @ w @ post \<and> (\<forall>c \<in> set ws. is_space U c) \<and>
        same_word U w ''SELECT'' \<and> ends_word U post)"

definition has_limit_clause :: "ucd \<Rightarrow> str \<Rightarrow> bool" where
  \<comment> \<open>\<^verbatim>\<open>LIMIT <integer>\<close>\<close>
  "has_limit_clause U s =
     (\<exists>pre w ws ds post. s = pre @ w @ ws @ ds @ post \<and> starts_word U pre \<and>
        same_word U w ''LIMIT'' \<and> ws \<noteq> [] \<and> (\<forall>c \<in> set ws. is_space U c) \<and>
        ds \<noteq> [] \<and> (\<forall>c \<in> set ds. is_digit U c) \<and> ends_word U post)"

definition aggregate_calls :: "string list" where
  "aggregate_calls = [''COUNT('', ''SUM('', ''AVG('', ''MAX('', ''MIN('']"

definition mentions_aggregate :: "ucd \<Rightarrow> str \<Rightarrow> bool" where
  \<comment> \<open>one of \<^verbatim>\<open>COUNT(\<close>, \<^verbatim>\<open>SUM(\<close>, \<^verbatim>\<open>AVG(\<close>, \<^verbatim>\<open>MAX(\<close>, \<^verbatim>\<open>MIN(\<close> or \<^verbatim>\<open>GROUP BY\<close> occurs somewhere in
      the text, up to case\<close>
  "mentions_aggregate U s =
     ((\<exists>kw \<in> set aggregate_calls. \<exists>pre w post. s = pre @ w @ post \<and> same_word U w kw) \<or>
      (\<exists>pre g ws b post. s = pre @ g @ ws @ b @ post \<and>
         same_word U g ''GROUP'' \<and> ws \<noteq> [] \<and> (\<forall>c \<in> set ws. is_space U c) \<and>
         same_word U b ''BY''))"

definition has_aggregate :: "ucd \<Rightarrow> str \<Rightarrow> bool" where
  \<comment> \<open>the same, as a construct of its own: the token begins a word, and \<^verbatim>\<open>GROUP BY\<close> also
      ends one\<close>
  "has_aggregate U s =
     ((\<exists>kw \<in> set aggregate_calls. \<exists>pre w post.
         s = pre @ w @ post \<and> starts_word U pre \<and> same_word U w kw) \<or>
      (\<exists>pre g ws b post. s = pre @ g @ ws @ b @ post \<and> starts_word U pre \<and>
         same_word U g ''GROUP'' \<and> ws \<noteq> [] \<and> (\<forall>c \<in> set ws. is_space U c) \<and>
         same_word U b ''BY'' \<and> ends_word U post))"

definition reason_text :: "reason \<Rightarrow> str" where
  "reason_text r =
     (case r of
        WriteOperationForbidden \<Rightarrow> str_of ''ERROR: write operations are not allowed.''
      | MultipleStatementsForbidden \<Rightarrow> str_of ''ERROR: multiple statements are not allowed.''
      | OnlySelectAllowed \<Rightarrow> str_of ''ERROR: only SELECT statements are allowed.'')"

subsection \<open>Auxiliary notions for the proofs\<close>

fun ci_prefix :: "ucd \<Rightarrow> string \<Rightarrow> str \<Rightarrow> bool" where
  \<comment> \<open>the text begins with the token, up to case\<close>
  "ci_prefix U [] ys = True"
| "ci_prefix U (c # cs) [] = False"
| "ci_prefix U (c # cs) (y # ys) = (same_ignoring_case U (ch c) y \<and> ci_prefix U cs ys)"

definition prev_after :: "nat option \<Rightarrow> str \<Rightarrow> nat option" where
  \<comment> \<open>the character before the cursor once \<open>w\<close> has been read\<close>
  "prev_after p w = (if w = [] then p else Some (last w))"

definition accepts :: "ucd \<Rightarrow> rx \<Rightarrow> cursor \<Rightarrow> bool" where
  \<comment> \<open>the pattern matches at the cursor\<close>
  "accepts U r cu = (rmatch U r cu \<noteq> [])"

definition rstrip_space :: "ucd \<Rightarrow> str \<Rightarrow> str" where
  \<comment> \<open>the text without its trailing whitespace\<close>
  "rstrip_space U s = rev (dropWhile (is_space U) (rev s))"

definition letter :: "char \<Rightarrow> bool" where
  \<comment> \<open>an ASCII letter\<close>
  "letter c = in_ranges (ch c) [(65, 90), (97, 122)]"

section \<open>Facts about the character tables\<close>

lemma ch_less: "ch c < 256"
  unfolding ch_def by (cases c) simp

lemma str_of_append: "str_of (a @ b) = str_of a @ str_of b"
  by (simp add: str_of_def)

lemma ok_ascii:
  assumes "ucd_ok U" "n < 128"
  shows "isspace U n = in_ranges n [(9, 13), (28, 32)]"
    and "isalnum U n = in_ranges n [(48, 57), (65, 90), (97, 122)]"
    and "isdecimal U n = in_ranges n [(48, 57)]"
    and "tolower U n = (if in_ranges n [(65, 90)] then n + 32 else n)"
    and "iscased U n = in_ranges n [(65, 90), (97, 122)]"
    and "extra_cases U n = (if n = 105 then [305] else if n = 115 then [383] else [])"
  using assms unfolding ucd_ok_def by blast+

lemma ok_space_alnum: "ucd_ok U \<Longrightarrow> isspace U n \<Longrightarrow> \<not> isalnum U n"
  unfolding ucd_ok_def by blast

lemma ok_decimal_alnum: "ucd_ok U \<Longrightarrow> isdecimal U n \<Longrightarrow> isalnum U n"
  unfolding ucd_ok_def by blast

lemma ok_lower_alnum:
  "ucd_ok U \<Longrightarrow> in_ranges (tolower U n) [(97, 122), (305, 305), (383, 383)] \<Longrightarrow> isalnum U n"
  unfolding ucd_ok_def by blast

lemma space_not_word: "ucd_ok U \<Longrightarrow> is_space U c \<Longrightarrow> \<not> is_word U c"
  using ok_space_alnum [of U c] ok_ascii(1) [of U 95]
  by (auto simp add: is_space_def is_word_def ch_def)

lemma digit_is_word: "ucd_ok U \<Longrightarrow> is_digit U c \<Longrightarrow> is_word U c"
  by (simp add: is_digit_def is_word_def ok_decimal_alnum)

lemma digit_not_space: "ucd_ok U \<Longrightarrow> is_digit U c \<Longrightarrow> \<not> is_space U c"
  using digit_is_word space_not_word by blast

text \<open>Ignoring case, on an ASCII literal.\<close>

lemma same_ignoring_case_ascii:
  assumes "ucd_ok U" "n < 128"
  shows "same_ignoring_case U n x \<longleftrightarrow>
     (if in_ranges n [(65, 90)]
      then tolower U x \<in> set ((n + 32) # (if n = 73 then [305] else if n = 83 then [383] else []))
      else if in_ranges n [(97, 122)]
      then tolower U x \<in> set (n # (if n = 105 then [305] else if n = 115 then [383] else []))
      else x = n)"
proof -
  define m where "m = tolower U n"
  have c: "iscased U n = in_ranges n [(65, 90), (97, 122)]"
    using assms by (rule ok_ascii)
  have l: "m = (if in_ranges n [(65, 90)] then n + 32 else n)"
    unfolding m_def using assms by (rule ok_ascii)
  have "m < 128" using assms(2) l by (auto split: if_splits)
  then have e: "extra_cases U m = (if m = 105 then [305] else if m = 115 then [383] else [])"
    using assms(1) by (rule ok_ascii(6) [rotated])
  have "same_ignoring_case U n x \<longleftrightarrow>
      (if iscased U n then tolower U x \<in> set (m # extra_cases U m) else x = n)"
    by (simp add: same_ignoring_case_def m_def)
  also have "\<dots> \<longleftrightarrow>
      (if in_ranges n [(65, 90), (97, 122)]
       then tolower U x \<in> set (m # (if m = 105 then [305] else if m = 115 then [383] else []))
       else x = n)"
    by (simp only: c e)
  also have "\<dots> \<longleftrightarrow>
     (if in_ranges n [(65, 90)]
      then tolower U x \<in> set ((n + 32) # (if n = 73 then [305] else if n = 83 then [383] else []))
      else if in_ranges n [(97, 122)]
      then tolower U x \<in> set (n # (if n = 105 then [305] else if n = 115 then [383] else []))
      else x = n)"
    unfolding l by auto
  finally show ?thesis .
qed

lemma letter_match_word:
  assumes "ucd_ok U" "letter c" "same_ignoring_case U (ch c) x"
  shows "is_word U x"
proof -
  have n: "ch c < 128" using assms(2) by (auto simp add: letter_def)
  have "in_ranges (tolower U x) [(97, 122), (305, 305), (383, 383)]"
    using assms(2,3) unfolding same_ignoring_case_ascii [OF assms(1) n] letter_def
    by (auto split: if_splits)
  then have "isalnum U x" using assms(1) by (rule ok_lower_alnum [rotated])
  then show ?thesis by (simp add: is_word_def)
qed

lemma other_match_eq:
  assumes "ucd_ok U" "\<not> letter c" "ch c < 128"
  shows "same_ignoring_case U (ch c) x \<longleftrightarrow> x = ch c"
  using assms(2) unfolding same_ignoring_case_ascii [OF assms(1,3)] letter_def by auto

text \<open>A character of a token: an ASCII letter or an opening parenthesis.\<close>

lemma token_match_not_space:
  assumes "ucd_ok U" "letter c \<or> c = CHR ''(''" "same_ignoring_case U (ch c) x"
  shows "\<not> is_space U x"
proof (cases "letter c")
  case True
  then have "is_word U x" using assms by (auto intro: letter_match_word)
  then show ?thesis using assms(1) space_not_word by blast
next
  case False
  with assms(2) have c: "c = CHR ''(''" by simp
  then have "x = 40" using assms(1,3) False other_match_eq [of U c x] by (simp add: ch_def)
  then show ?thesis using ok_ascii(1) [OF assms(1), of 40] by (simp add: is_space_def)
qed

section \<open>What the patterns match\<close>

lemma prev_after_Nil [simp]: "prev_after p [] = p"
  by (simp add: prev_after_def)

lemma prev_after_Cons [simp]: "prev_after p (x # xs) = prev_after (Some x) xs"
  by (simp add: prev_after_def)

lemma prev_after_append [simp]: "prev_after p (xs @ ys) = prev_after (prev_after p xs) ys"
  by (simp add: prev_after_def)

lemma rmatch_lit:
  "rmatch U (lit w) (p, ys) =
     (if ci_prefix U w ys then [(prev_after p (take (length w) ys), drop (length w) ys)] else [])"
proof (induction w arbitrary: p ys)
  case Nil
  show ?case by simp
next
  case (Cons c cs)
  note IH = Cons.IH
  show ?case
  proof (cases ys)
    case Nil
    then show ?thesis by simp
  next
    case (Cons y ys')
    with IH show ?thesis by simp
  qed
qed

lemma same_word_Nil [simp]: "same_word U v [] \<longleftrightarrow> v = []"
  by (simp add: same_word_def)

lemma same_word_Cons:
  "same_word U v (c # cs) \<longleftrightarrow>
     (\<exists>x xs. v = x # xs \<and> same_ignoring_case U (ch c) x \<and> same_word U xs cs)"
  by (simp add: same_word_def list_all2_Cons2)

lemma same_word_length: "same_word U v w \<Longrightarrow> length v = length w"
  unfolding same_word_def by (rule list_all2_lengthD)

lemma same_word_last:
  assumes "same_word U v w" "w \<noteq> []"
  shows "v \<noteq> [] \<and> same_ignoring_case U (ch (last w)) (last v)"
proof -
  have l: "length v = length w" using assms(1) by (rule same_word_length)
  with assms(2) have v: "v \<noteq> []" by auto
  have "same_ignoring_case U (ch (w ! (length w - 1))) (v ! (length w - 1))"
    using assms unfolding same_word_def list_all2_conv_all_nth by simp
  with v assms(2) l show ?thesis by (simp add: last_conv_nth)
qed

lemma ci_prefix_iff:
  "ci_prefix U w ys \<longleftrightarrow> (\<exists>v zs. ys = v @ zs \<and> same_word U v w)"
proof (induction U w ys rule: ci_prefix.induct)
  case (1 U ys)
  show ?case by simp
next
  case (2 U c cs)
  show ?case by (simp add: same_word_Cons)
next
  case (3 U c cs y ys)
  show ?case
  proof
    assume "ci_prefix U (c # cs) (y # ys)"
    with 3 obtain v zs where "ys = v @ zs" "same_word U v cs" "same_ignoring_case U (ch c) y"
      by auto
    then have "y # ys = (y # v) @ zs \<and> same_word U (y # v) (c # cs)"
      by (simp add: same_word_Cons)
    then show "\<exists>v zs. y # ys = v @ zs \<and> same_word U v (c # cs)" by blast
  next
    assume "\<exists>v zs. y # ys = v @ zs \<and> same_word U v (c # cs)"
    then obtain v zs where v: "y # ys = v @ zs" "same_word U v (c # cs)" by blast
    then obtain v' where "v = y # v'" by (cases v) (auto simp: same_word_Cons)
    with v 3 show "ci_prefix U (c # cs) (y # ys)" by (auto simp: same_word_Cons)
  qed
qed

lemma search_from_iff:
  "search_from U r p xs \<longleftrightarrow>
     (\<exists>ys zs. xs = ys @ zs \<and> rmatch U r (prev_after p ys, zs) \<noteq> [])"
proof (induction xs arbitrary: p)
  case Nil
  show ?case by simp
next
  case (Cons x xs)
  show ?case
  proof
    assume "search_from U r p (x # xs)"
    then consider "rmatch U r (p, x # xs) \<noteq> []" | "search_from U r (Some x) xs"
      by (auto split: if_splits)
    then show "\<exists>ys zs. x # xs = ys @ zs \<and> rmatch U r (prev_after p ys, zs) \<noteq> []"
    proof cases
      case 1
      then have "x # xs = [] @ (x # xs) \<and> rmatch U r (prev_after p [], x # xs) \<noteq> []" by simp
      then show ?thesis by blast
    next
      case 2
      with Cons obtain ys zs where "xs = ys @ zs" "rmatch U r (prev_after (Some x) ys, zs) \<noteq> []"
        by blast
      then have "x # xs = (x # ys) @ zs \<and> rmatch U r (prev_after p (x # ys), zs) \<noteq> []" by simp
      then show ?thesis by blast
    qed
  next
    assume "\<exists>ys zs. x # xs = ys @ zs \<and> rmatch U r (prev_after p ys, zs) \<noteq> []"
    then obtain ys zs where h: "x # xs = ys @ zs" "rmatch U r (prev_after p ys, zs) \<noteq> []"
      by blast
    note IH = Cons.IH
    show "search_from U r p (x # xs)"
    proof (cases ys)
      case Nil
      with h have "rmatch U r (p, x # xs) \<noteq> []" by simp
      then show ?thesis by simp
    next
      case (Cons y ys')
      with h have "xs = ys' @ zs" "rmatch U r (prev_after (Some x) ys', zs) \<noteq> []" by auto
      with IH have "search_from U r (Some x) xs" by blast
      then show ?thesis by simp
    qed
  qed
qed

lemma starts_word_iff: "starts_word U ys \<longleftrightarrow> \<not> word_before U (prev_after None ys)"
  by (simp add: starts_word_def word_before_def prev_after_def)

lemma ends_word_iff: "ends_word U zs \<longleftrightarrow> \<not> word_after U zs"
  by (cases zs) (simp_all add: ends_word_def word_after_def)

lemma accepts_Seq: "accepts U (Seq a b) cu \<longleftrightarrow> (\<exists>m \<in> set (rmatch U a cu). accepts U b m)"
  by (auto simp add: accepts_def)

lemma accepts_Alt: "accepts U (Alt a b) cu \<longleftrightarrow> accepts U a cu \<or> accepts U b cu"
  by (simp add: accepts_def)

lemma accepts_Seq_Alt:
  "accepts U (Seq (Alt a b) c) cu \<longleftrightarrow> accepts U (Seq a c) cu \<or> accepts U (Seq b c) cu"
  by (auto simp add: accepts_def)

lemma accepts_Seq_WordB:
  "accepts U (Seq WordB r) (p, ys) \<longleftrightarrow>
     word_before U p \<noteq> word_after U ys \<and> accepts U r (p, ys)"
  by (simp add: accepts_def)

lemma accepts_WordB: "accepts U WordB (p, ys) \<longleftrightarrow> word_before U p \<noteq> word_after U ys"
  by (simp add: accepts_def)

lemma accepts_Seq_lit:
  "accepts U (Seq (lit w) r) (p, ys) \<longleftrightarrow>
     ci_prefix U w ys \<and> accepts U r (prev_after p (take (length w) ys), drop (length w) ys)"
  by (simp add: accepts_def rmatch_lit)

lemma accepts_lit: "accepts U (lit w) (p, ys) \<longleftrightarrow> ci_prefix U w ys"
  by (simp add: accepts_def rmatch_lit)

lemma ci_prefix_take: "ci_prefix U w ys \<Longrightarrow> same_word U (take (length w) ys) w"
  by (induction U w ys rule: ci_prefix.induct) (simp_all add: same_word_Cons)

lemma ci_prefix_length: "ci_prefix U w ys \<Longrightarrow> length w \<le> length ys"
  by (induction U w ys rule: ci_prefix.induct) simp_all

lemma ci_prefix_word_after:
  "ucd_ok U \<Longrightarrow> ci_prefix U w ys \<Longrightarrow> w \<noteq> [] \<Longrightarrow> letter (hd w) \<Longrightarrow> word_after U ys"
  by (cases w; cases ys) (auto simp: word_after_def intro: letter_match_word)

lemma ci_prefix_word_before:
  assumes "ucd_ok U" "ci_prefix U w ys" "w \<noteq> []" "letter (last w)"
  shows "word_before U (prev_after p (take (length w) ys))"
proof -
  from assms(2) have s: "same_word U (take (length w) ys) w" by (rule ci_prefix_take)
  from same_word_last [OF s assms(3)] assms(1,4)
  have "take (length w) ys \<noteq> []" "is_word U (last (take (length w) ys))"
    by (auto intro: letter_match_word)
  then show ?thesis by (simp add: prev_after_def word_before_def)
qed

text \<open>A token that begins and ends with a letter, between two \<^verbatim>\<open>\b\<close>.\<close>

lemma accepts_word:
  assumes "ucd_ok U" "w \<noteq> []" "letter (hd w)" "letter (last w)"
  shows "accepts U (Seq WordB (Seq (lit w) WordB)) (p, ys) \<longleftrightarrow>
           \<not> word_before U p \<and> ci_prefix U w ys \<and> \<not> word_after U (drop (length w) ys)"
  using assms ci_prefix_word_after [of U w ys] ci_prefix_word_before [of U w ys p]
  by (auto simp add: accepts_Seq_WordB accepts_Seq_lit accepts_WordB)

lemma accepts_write_rx:
  assumes ok: "ucd_ok U"
  shows "accepts U write_rx (p, ys) \<longleftrightarrow>
     \<not> word_before U p \<and>
     (\<exists>kw \<in> set write_keywords. ci_prefix U kw ys \<and> \<not> word_after U (drop (length kw) ys))"
proof -
  have w: "\<forall>kw \<in> set write_keywords. kw \<noteq> [] \<and> letter (hd kw) \<and> letter (last kw)"
    by (simp add: write_keywords_def letter_def ch_def)
  have "accepts U write_rx (p, ys) \<longleftrightarrow>
          (\<exists>kw \<in> set write_keywords. accepts U (Seq WordB (Seq (lit kw) WordB)) (p, ys))"
    unfolding write_rx_def write_keywords_def
    by (simp only: accepts_Seq_WordB accepts_Seq_Alt list.set bex_simps Bex_def insert_iff empty_iff) blast
  also have "\<dots> \<longleftrightarrow> \<not> word_before U p \<and>
     (\<exists>kw \<in> set write_keywords. ci_prefix U kw ys \<and> \<not> word_after U (drop (length kw) ys))"
    using w by (auto simp add: accepts_word [OF ok])
  finally show ?thesis .
qed

lemma re_search_write_rx:
  assumes ok: "ucd_ok U"
  shows "re_search U write_rx s \<longleftrightarrow> has_write_keyword U s"
proof
  assume "re_search U write_rx s"
  then obtain ys zs where s: "s = ys @ zs" and "accepts U write_rx (prev_after None ys, zs)"
    by (auto simp add: re_search_def search_from_iff accepts_def)
  then obtain kw where kw: "kw \<in> set write_keywords" "ci_prefix U kw zs"
      "\<not> word_after U (drop (length kw) zs)" and b: "starts_word U ys"
    by (auto simp add: accepts_write_rx [OF ok] starts_word_iff)
  have "s = ys @ take (length kw) zs @ drop (length kw) zs" using s by simp
  moreover have "same_word U (take (length kw) zs) kw" using kw by (simp add: ci_prefix_take)
  moreover have "ends_word U (drop (length kw) zs)" using kw by (simp add: ends_word_iff)
  ultimately show "has_write_keyword U s"
    unfolding has_write_keyword_def using kw(1) b by blast
next
  assume "has_write_keyword U s"
  then obtain kw pre w post where h: "kw \<in> set write_keywords" "s = pre @ w @ post"
      "starts_word U pre" "same_word U w kw" "ends_word U post"
    unfolding has_write_keyword_def by blast
  from h(4) have "ci_prefix U kw (w @ post)" by (auto simp add: ci_prefix_iff)
  moreover from h(4) have "drop (length kw) (w @ post) = post"
    by (simp add: same_word_length)
  ultimately have "accepts U write_rx (prev_after None pre, w @ post)"
    using h by (auto simp add: accepts_write_rx [OF ok] starts_word_iff ends_word_iff)
  with h(2) show "re_search U write_rx s"
    by (auto simp add: re_search_def search_from_iff accepts_def)
qed

text \<open>From here on the patterns are unfolded only through the lemmas about them.\<close>

declare lit.simps [simp del]

lemmas rmatch_Star = rmatch.simps(9)

declare rmatch.simps(9) [simp del]

lemma rmatch_Star_Nil:
  assumes a: "\<And>cu. rmatch U a cu = one P cu"
  shows "rmatch U (Star a) (p, []) = [(p, [])]"
  by (subst rmatch_Star) (simp add: a)

lemma rmatch_Star_Cons:
  assumes a: "\<And>cu. rmatch U a cu = one P cu"
  shows "rmatch U (Star a) (p, y # ys) =
           (if P y then rmatch U (Star a) (Some y, ys) @ [(p, y # ys)] else [(p, y # ys)])"
  by (subst rmatch_Star) (simp add: a)

lemma set_rmatch_Star_one:
  assumes a: "\<And>cu. rmatch U a cu = one P cu"
  shows "set (rmatch U (Star a) (p, ys)) =
           {(prev_after p v, zs) | v zs. ys = v @ zs \<and> (\<forall>c \<in> set v. P c)}"
proof (induction ys arbitrary: p)
  case Nil
  show ?case by (simp add: rmatch_Star_Nil [OF a])
next
  case (Cons y ys)
  note star = rmatch_Star_Cons [OF a]
  show ?case (is "?L = ?R")
  proof (cases "P y")
    case False
    then have "?L = {(p, y # ys)}" by (simp add: star)
    moreover have "?R = {(p, y # ys)}"
    proof (intro set_eqI iffI)
      fix cu
      assume "cu \<in> ?R"
      then obtain v zs where h: "cu = (prev_after p v, zs)" "y # ys = v @ zs" "\<forall>c \<in> set v. P c"
        by blast
      have "v = []"
      proof (cases v)
        case (Cons x v')
        with h False show ?thesis by simp
      qed simp
      with h show "cu \<in> {(p, y # ys)}" by simp
    next
      fix cu
      assume "cu \<in> {(p, y # ys)}"
      then have "cu = (prev_after p [], y # ys) \<and> y # ys = [] @ (y # ys) \<and> (\<forall>c \<in> set []. P c)"
        by simp
      then show "cu \<in> ?R" by blast
    qed
    ultimately show ?thesis by simp
  next
    case True
    then have "?L = set (rmatch U (Star a) (Some y, ys)) \<union> {(p, y # ys)}" by (simp add: star)
    also have "\<dots> = {(prev_after (Some y) v, zs) | v zs. ys = v @ zs \<and> (\<forall>c \<in> set v. P c)}
                  \<union> {(p, y # ys)}"
      by (simp only: Cons.IH)
    also have "\<dots> = ?R"
    proof (intro set_eqI iffI)
      fix cu
      assume "cu \<in> {(prev_after (Some y) v, zs) | v zs. ys = v @ zs \<and> (\<forall>c \<in> set v. P c)}
                  \<union> {(p, y # ys)}"
      then consider v zs where "cu = (prev_after (Some y) v, zs)" "ys = v @ zs" "\<forall>c \<in> set v. P c"
        | "cu = (p, y # ys)" by blast
      then show "cu \<in> ?R"
      proof cases
        case 1
        then have "cu = (prev_after p (y # v), zs) \<and> y # ys = (y # v) @ zs \<and> (\<forall>c \<in> set (y # v). P c)"
          using True by simp
        then show ?thesis by blast
      next
        case 2
        then have "cu = (prev_after p [], y # ys) \<and> y # ys = [] @ (y # ys) \<and> (\<forall>c \<in> set []. P c)"
          by simp
        then show ?thesis by blast
      qed
    next
      fix cu
      assume "cu \<in> ?R"
      then obtain v zs where h: "cu = (prev_after p v, zs)" "y # ys = v @ zs" "\<forall>c \<in> set v. P c"
        by blast
      show "cu \<in> {(prev_after (Some y) v, zs) | v zs. ys = v @ zs \<and> (\<forall>c \<in> set v. P c)}
                  \<union> {(p, y # ys)}"
      proof (cases v)
        case Nil
        with h show ?thesis by simp
      next
        case (Cons x v')
        with h have "cu = (prev_after (Some y) v', zs) \<and> ys = v' @ zs \<and> (\<forall>c \<in> set v'. P c)"
          by simp
        then show ?thesis by blast
      qed
    qed
    finally show ?thesis .
  qed
qed

lemma accepts_Seq_Star:
  assumes a: "\<And>cu. rmatch U a cu = one P cu"
  shows "accepts U (Seq (Star a) r) (p, ys) \<longleftrightarrow>
           (\<exists>v zs. ys = v @ zs \<and> (\<forall>c \<in> set v. P c) \<and> accepts U r (prev_after p v, zs))"
  unfolding accepts_Seq set_rmatch_Star_one [OF a] by blast

lemma accepts_Seq_Plus:
  assumes a: "\<And>cu. rmatch U a cu = one P cu"
  shows "accepts U (Seq (Plus a) r) (p, ys) \<longleftrightarrow>
           (\<exists>v zs. ys = v @ zs \<and> v \<noteq> [] \<and> (\<forall>c \<in> set v. P c) \<and> accepts U r (prev_after p v, zs))"
proof
  assume "accepts U (Seq (Plus a) r) (p, ys)"
  then obtain m where m: "m \<in> set (rmatch U (Plus a) (p, ys))" "accepts U r m"
    by (auto simp add: accepts_Seq)
  then obtain m1 where m1: "m1 \<in> set (one P (p, ys))" "m \<in> set (rmatch U (Star a) m1)"
    by (auto simp add: Plus_def a)
  then obtain y ys' where y: "ys = y # ys'" "P y" "m1 = (Some y, ys')"
    by (cases ys) (auto split: if_splits)
  with m1 have "m \<in> set (rmatch U (Star a) (Some y, ys'))" by simp
  then obtain v zs where v: "m = (prev_after (Some y) v, zs)" "ys' = v @ zs" "\<forall>c \<in> set v. P c"
    unfolding set_rmatch_Star_one [OF a] by blast
  have "ys = (y # v) @ zs \<and> y # v \<noteq> [] \<and> (\<forall>c \<in> set (y # v). P c) \<and>
          accepts U r (prev_after p (y # v), zs)"
    using y v m by simp
  then show "\<exists>v zs. ys = v @ zs \<and> v \<noteq> [] \<and> (\<forall>c \<in> set v. P c) \<and> accepts U r (prev_after p v, zs)"
    by blast
next
  assume "\<exists>v zs. ys = v @ zs \<and> v \<noteq> [] \<and> (\<forall>c \<in> set v. P c) \<and> accepts U r (prev_after p v, zs)"
  then obtain v zs where h: "ys = v @ zs" "v \<noteq> []" "\<forall>c \<in> set v. P c"
      "accepts U r (prev_after p v, zs)" by blast
  then obtain y v' where v: "v = y # v'" by (cases v) auto
  with h have "(Some y, v' @ zs) \<in> set (one P (p, ys))" by simp
  moreover have "(prev_after (Some y) v', zs) \<in> set (rmatch U (Star a) (Some y, v' @ zs))"
    unfolding set_rmatch_Star_one [OF a] using h v by auto
  ultimately have "(prev_after p v, zs) \<in> set (rmatch U (Plus a) (p, ys))"
    using v by (auto simp add: Plus_def a)
  with h show "accepts U (Seq (Plus a) r) (p, ys)"
    by (auto simp add: accepts_Seq)
qed

lemma accepts_Seq_Bol: "accepts U (Seq Bol r) (p, ys) \<longleftrightarrow> p = None \<and> accepts U r (p, ys)"
  by (auto simp add: accepts_def)

lemma accepts_WordB_after:
  "v \<noteq> [] \<Longrightarrow> is_word U (last v) \<Longrightarrow> accepts U WordB (prev_after p v, zs) \<longleftrightarrow> ends_word U zs"
  by (simp add: accepts_WordB prev_after_def word_before_def ends_word_iff)

lemma accepts_lit_word:
  assumes "ucd_ok U" "w \<noteq> []" "letter (last w)"
  shows "accepts U (Seq (lit w) WordB) (p, ys) \<longleftrightarrow>
           (\<exists>v zs. ys = v @ zs \<and> same_word U v w \<and> ends_word U zs)"
proof
  assume "accepts U (Seq (lit w) WordB) (p, ys)"
  then have c: "ci_prefix U w ys"
    and b: "accepts U WordB (prev_after p (take (length w) ys), drop (length w) ys)"
    by (simp_all add: accepts_Seq_lit)
  from b ci_prefix_word_before [OF assms(1) c assms(2,3), of p]
  have "ends_word U (drop (length w) ys)"
    by (simp add: accepts_WordB ends_word_iff)
  moreover have "ys = take (length w) ys @ drop (length w) ys" by simp
  moreover have "same_word U (take (length w) ys) w" using c by (rule ci_prefix_take)
  ultimately show "\<exists>v zs. ys = v @ zs \<and> same_word U v w \<and> ends_word U zs" by blast
next
  assume "\<exists>v zs. ys = v @ zs \<and> same_word U v w \<and> ends_word U zs"
  then obtain v zs where h: "ys = v @ zs" "same_word U v w" "ends_word U zs" by blast
  then have c: "ci_prefix U w ys" by (auto simp add: ci_prefix_iff)
  have d: "drop (length w) ys = zs" using h by (simp add: same_word_length)
  have "word_before U (prev_after p (take (length w) ys))"
    using assms(1) c assms(2,3) by (rule ci_prefix_word_before)
  with c d h(3) show "accepts U (Seq (lit w) WordB) (p, ys)"
    by (simp only: accepts_Seq_lit accepts_WordB ends_word_iff) simp
qed

lemma re_match_select_rx:
  assumes ok: "ucd_ok U"
  shows "re_match U select_rx s \<longleftrightarrow> begins_with_select U s"
proof -
  have w: "''select'' \<noteq> []" "letter (last ''select'')"
    by (simp_all add: letter_def ch_def)
  have sw: "\<And>v. same_word U v ''select'' = same_word U v ''SELECT''"
    by (simp add: same_word_Cons same_ignoring_case_ascii [OF ok] ch_def)
  have "re_match U select_rx s \<longleftrightarrow> accepts U select_rx (None, s)"
    by (simp add: re_match_def accepts_def)
  also have "\<dots> \<longleftrightarrow> (\<exists>ws zs. s = ws @ zs \<and> (\<forall>c \<in> set ws. is_space U c) \<and>
       accepts U (Seq (lit ''select'') WordB) (prev_after None ws, zs))"
    unfolding select_rx_def accepts_Seq_Bol
    by (subst accepts_Seq_Star [where P = "is_space U"]) simp_all
  also have "\<dots> \<longleftrightarrow> (\<exists>ws zs. s = ws @ zs \<and> (\<forall>c \<in> set ws. is_space U c) \<and>
       (\<exists>v post. zs = v @ post \<and> same_word U v ''SELECT'' \<and> ends_word U post))"
    by (simp only: accepts_lit_word [OF ok w] sw)
  also have "\<dots> \<longleftrightarrow> begins_with_select U s"
    unfolding begins_with_select_def by blast
  finally show ?thesis .
qed

lemma accepts_Seq_lit_iff:
  "accepts U (Seq (lit w) r) (p, ys) \<longleftrightarrow>
     (\<exists>v zs. ys = v @ zs \<and> same_word U v w \<and> accepts U r (prev_after p v, zs))"
proof
  assume "accepts U (Seq (lit w) r) (p, ys)"
  then have "ci_prefix U w ys"
    and "accepts U r (prev_after p (take (length w) ys), drop (length w) ys)"
    by (simp_all add: accepts_Seq_lit)
  moreover have "ys = take (length w) ys @ drop (length w) ys" by simp
  ultimately show "\<exists>v zs. ys = v @ zs \<and> same_word U v w \<and> accepts U r (prev_after p v, zs)"
    using ci_prefix_take by blast
next
  assume "\<exists>v zs. ys = v @ zs \<and> same_word U v w \<and> accepts U r (prev_after p v, zs)"
  then obtain v zs where h: "ys = v @ zs" "same_word U v w" "accepts U r (prev_after p v, zs)"
    by blast
  then have "ci_prefix U w ys" by (auto simp add: ci_prefix_iff)
  moreover have "take (length w) ys = v" "drop (length w) ys = zs"
    using h by (simp_all add: same_word_length)
  ultimately show "accepts U (Seq (lit w) r) (p, ys)"
    using h(3) by (simp add: accepts_Seq_lit)
qed

lemma accepts_lit_iff: "accepts U (lit w) (p, ys) \<longleftrightarrow> (\<exists>v zs. ys = v @ zs \<and> same_word U v w)"
  by (simp add: accepts_lit ci_prefix_iff)

lemma accepts_word_start:
  assumes "ucd_ok U" "w \<noteq> []" "letter (hd w)"
  shows "accepts U (Seq WordB (Seq (lit w) r)) (p, ys) \<longleftrightarrow>
           \<not> word_before U p \<and> accepts U (Seq (lit w) r) (p, ys)"
  using assms ci_prefix_word_after [of U w ys]
  by (auto simp add: accepts_Seq_WordB accepts_Seq_lit)

lemma accepts_call_start:
  assumes "ucd_ok U" "w \<noteq> []" "letter (hd w)"
  shows "accepts U (Seq WordB (lit w)) (p, ys) \<longleftrightarrow> \<not> word_before U p \<and> accepts U (lit w) (p, ys)"
  using assms ci_prefix_word_after [of U w ys]
  by (auto simp add: accepts_Seq_WordB accepts_lit)

lemma accepts_digits_end:
  assumes ok: "ucd_ok U"
  shows "accepts U (Seq (Plus Digit) WordB) (p, ys) \<longleftrightarrow>
     (\<exists>ds zs. ys = ds @ zs \<and> ds \<noteq> [] \<and> (\<forall>c \<in> set ds. is_digit U c) \<and> ends_word U zs)"
proof -
  have "accepts U (Seq (Plus Digit) WordB) (p, ys) \<longleftrightarrow>
     (\<exists>ds zs. ys = ds @ zs \<and> ds \<noteq> [] \<and> (\<forall>c \<in> set ds. is_digit U c) \<and>
        accepts U WordB (prev_after p ds, zs))"
    by (rule accepts_Seq_Plus) simp
  moreover have "\<And>ds zs. ds \<noteq> [] \<Longrightarrow> \<forall>c \<in> set ds. is_digit U c \<Longrightarrow>
      accepts U WordB (prev_after p ds, zs) = ends_word U zs"
    by (rule accepts_WordB_after) (simp_all add: digit_is_word [OF ok])
  ultimately show ?thesis by metis
qed

lemma accepts_spaces:
  "accepts U (Seq (Plus Space) r) (p, ys) \<longleftrightarrow>
     (\<exists>ws zs. ys = ws @ zs \<and> ws \<noteq> [] \<and> (\<forall>c \<in> set ws. is_space U c) \<and>
        accepts U r (prev_after p ws, zs))"
  by (rule accepts_Seq_Plus) simp

lemma accepts_limit_rx:
  assumes ok: "ucd_ok U"
  shows "accepts U limit_rx (p, ys) \<longleftrightarrow>
     \<not> word_before U p \<and>
     (\<exists>w ws ds post. ys = w @ ws @ ds @ post \<and> same_word U w ''LIMIT'' \<and>
        ws \<noteq> [] \<and> (\<forall>c \<in> set ws. is_space U c) \<and>
        ds \<noteq> [] \<and> (\<forall>c \<in> set ds. is_digit U c) \<and> ends_word U post)"
proof -
  have w: "''limit'' \<noteq> []" "letter (hd ''limit'')" by (simp_all add: letter_def ch_def)
  have sw: "\<And>v. same_word U v ''limit'' = same_word U v ''LIMIT''"
    by (simp add: same_word_Cons same_ignoring_case_ascii [OF ok] ch_def)
  show ?thesis
    unfolding limit_rx_def accepts_word_start [OF ok w] accepts_Seq_lit_iff accepts_spaces
      accepts_digits_end [OF ok] sw
    by blast
qed

lemma re_search_limit_rx:
  assumes ok: "ucd_ok U"
  shows "re_search U limit_rx s \<longleftrightarrow> has_limit_clause U s"
proof -
  have "re_search U limit_rx s \<longleftrightarrow>
      (\<exists>pre ys. s = pre @ ys \<and> accepts U limit_rx (prev_after None pre, ys))"
    by (simp add: re_search_def search_from_iff accepts_def)
  also have "\<dots> \<longleftrightarrow> has_limit_clause U s"
    unfolding accepts_limit_rx [OF ok] has_limit_clause_def starts_word_iff by blast
  finally show ?thesis .
qed

lemma accepts_group_by:
  assumes ok: "ucd_ok U"
  shows "accepts U (Seq WordB (Seq (lit ''group'') (Seq (Plus Space) (Seq (lit ''by'') WordB)))) (p, ys) \<longleftrightarrow>
     \<not> word_before U p \<and>
     (\<exists>g ws b post. ys = g @ ws @ b @ post \<and> same_word U g ''GROUP'' \<and>
        ws \<noteq> [] \<and> (\<forall>c \<in> set ws. is_space U c) \<and> same_word U b ''BY'' \<and> ends_word U post)"
proof -
  have w: "''group'' \<noteq> []" "letter (hd ''group'')" by (simp_all add: letter_def ch_def)
  have b: "''by'' \<noteq> []" "letter (last ''by'')" by (simp_all add: letter_def ch_def)
  have sw: "\<And>v. same_word U v ''group'' = same_word U v ''GROUP''"
    "\<And>v. same_word U v ''by'' = same_word U v ''BY''"
    by (simp_all add: same_word_Cons same_ignoring_case_ascii [OF ok] ch_def)
  let ?tail = "Seq (Plus Space) (Seq (lit ''by'') WordB)"
  have 1: "accepts U (Seq (lit ''group'') ?tail) (p, ys) \<longleftrightarrow>
      (\<exists>g zs. ys = g @ zs \<and> same_word U g ''GROUP'' \<and> accepts U ?tail (prev_after p g, zs))"
    unfolding sw [symmetric] by (rule accepts_Seq_lit_iff)
  have 2: "\<And>q zs. accepts U ?tail (q, zs) \<longleftrightarrow>
      (\<exists>ws b post. zs = ws @ b @ post \<and> ws \<noteq> [] \<and> (\<forall>c \<in> set ws. is_space U c) \<and>
         same_word U b ''BY'' \<and> ends_word U post)"
    unfolding accepts_spaces accepts_lit_word [OF ok b] sw by blast
  show ?thesis
    unfolding accepts_word_start [OF ok w] 1 2 by blast
qed

lemma accepts_call:
  assumes "ucd_ok U" "w \<noteq> []" "letter (hd w)" "\<And>v. same_word U v w = same_word U v kw"
  shows "accepts U (Seq WordB (lit w)) (p, ys) \<longleftrightarrow>
     \<not> word_before U p \<and> (\<exists>v post. ys = v @ post \<and> same_word U v kw)"
  unfolding accepts_call_start [OF assms(1,2,3)] accepts_lit_iff assms(4) by (rule refl)

lemma accepts_aggregate_rx:
  assumes ok: "ucd_ok U"
  shows "accepts U aggregate_rx (p, ys) \<longleftrightarrow>
     \<not> word_before U p \<and>
     ((\<exists>kw \<in> set aggregate_calls. \<exists>v post. ys = v @ post \<and> same_word U v kw) \<or>
      (\<exists>g ws b post. ys = g @ ws @ b @ post \<and> same_word U g ''GROUP'' \<and>
        ws \<noteq> [] \<and> (\<forall>c \<in> set ws. is_space U c) \<and> same_word U b ''BY'' \<and> ends_word U post))"
proof -
  have c: "accepts U (Seq WordB (lit ''count('')) (p, ys) \<longleftrightarrow>
     \<not> word_before U p \<and> (\<exists>v post. ys = v @ post \<and> same_word U v ''COUNT('')"
    by (rule accepts_call [OF ok])
      (simp_all add: letter_def same_word_Cons same_ignoring_case_ascii [OF ok] ch_def)
  have s: "accepts U (Seq WordB (lit ''sum('')) (p, ys) \<longleftrightarrow>
     \<not> word_before U p \<and> (\<exists>v post. ys = v @ post \<and> same_word U v ''SUM('')"
    by (rule accepts_call [OF ok])
      (simp_all add: letter_def same_word_Cons same_ignoring_case_ascii [OF ok] ch_def)
  have a: "accepts U (Seq WordB (lit ''avg('')) (p, ys) \<longleftrightarrow>
     \<not> word_before U p \<and> (\<exists>v post. ys = v @ post \<and> same_word U v ''AVG('')"
    by (rule accepts_call [OF ok])
      (simp_all add: letter_def same_word_Cons same_ignoring_case_ascii [OF ok] ch_def)
  have mx: "accepts U (Seq WordB (lit ''max('')) (p, ys) \<longleftrightarrow>
     \<not> word_before U p \<and> (\<exists>v post. ys = v @ post \<and> same_word U v ''MAX('')"
    by (rule accepts_call [OF ok])
      (simp_all add: letter_def same_word_Cons same_ignoring_case_ascii [OF ok] ch_def)
  have mn: "accepts U (Seq WordB (lit ''min('')) (p, ys) \<longleftrightarrow>
     \<not> word_before U p \<and> (\<exists>v post. ys = v @ post \<and> same_word U v ''MIN('')"
    by (rule accepts_call [OF ok])
      (simp_all add: letter_def same_word_Cons same_ignoring_case_ascii [OF ok] ch_def)
  show ?thesis
    unfolding aggregate_rx_def accepts_Alt c s a mx mn accepts_group_by [OF ok] aggregate_calls_def
    by (simp only: list.set bex_simps Bex_def insert_iff empty_iff) blast
qed

lemma re_search_aggregate_rx:
  assumes ok: "ucd_ok U"
  shows "re_search U aggregate_rx s \<longleftrightarrow> has_aggregate U s"
proof -
  have "re_search U aggregate_rx s \<longleftrightarrow>
      (\<exists>pre ys. s = pre @ ys \<and> accepts U aggregate_rx (prev_after None pre, ys))"
    by (simp add: re_search_def search_from_iff accepts_def)
  also have "\<dots> \<longleftrightarrow> has_aggregate U s"
    unfolding accepts_aggregate_rx [OF ok] has_aggregate_def starts_word_iff by blast
  finally show ?thesis .
qed


section \<open>Evaluating the filter, and the method in terms of the filter\<close>

lemma sample_ok: "ucd_ok ucd_sample"
  unfolding ucd_ok_def ucd_sample_def by (auto split: if_splits)

text \<open>The rules to evaluate the filter with, on a text, under the table above.\<close>

lemma sample_fields:
  "isspace ucd_sample n = in_ranges n
     [(9, 13), (28, 32), (133, 133), (160, 160), (5760, 5760), (8192, 8202), (8232, 8233),
      (8239, 8239), (8287, 8287), (12288, 12288)]"
  "isalnum ucd_sample n = in_ranges n
     [(48, 57), (65, 90), (97, 122), (170, 170), (178, 179), (181, 181), (185, 186),
      (188, 190), (192, 214), (216, 246), (248, 255), (304, 305), (383, 383), (956, 956),
      (1632, 1641), (8490, 8490)]"
  "isdecimal ucd_sample n = in_ranges n [(48, 57), (1632, 1641)]"
  "tolower ucd_sample n =
     (if in_ranges n [(65, 90), (192, 214), (216, 222)] then n + 32
      else if n = 304 then 105 else if n = 8490 then 107 else n)"
  "iscased ucd_sample n = in_ranges n
     [(65, 90), (97, 122), (181, 181), (192, 214), (216, 246), (248, 255), (304, 305),
      (383, 383), (956, 956), (8490, 8490)]"
  "extra_cases ucd_sample n =
     (if n = 105 then [305] else if n = 115 then [383] else if n = 181 then [956]
      else if n = 305 then [105] else if n = 383 then [115] else if n = 956 then [181] else [])"
  by (simp_all add: ucd_sample_def)

lemma ci_prefix_step:
  "ci_prefix U (c # cs) (y # ys) =
     (if same_ignoring_case U (ch c) y then ci_prefix U cs ys else False)"
  by simp

lemmas eval_rules = rmatch_lit ci_prefix_step rmatch_Star admit_def normalize_def strip_def
  rstrip_def bounded_def re_search_def re_match_def write_rx_def select_rx_def limit_rx_def
  aggregate_rx_def Plus_def word_before_def word_after_def is_space_def is_digit_def is_word_def
  same_ignoring_case_def sample_fields str_of_def ch_def

text \<open>The classes on an ASCII character, under any table.\<close>

lemma is_word_ascii:
  "ucd_ok U \<Longrightarrow> n < 128 \<Longrightarrow> is_word U n = in_ranges n [(48, 57), (65, 90), (95, 95), (97, 122)]"
  by (auto simp add: is_word_def ok_ascii(2) ch_def)

lemma is_space_ascii:
  "ucd_ok U \<Longrightarrow> n < 128 \<Longrightarrow> is_space U n = in_ranges n [(9, 13), (28, 32)]"
  by (simp add: is_space_def ok_ascii(1))

lemma is_digit_ascii:
  "ucd_ok U \<Longrightarrow> n < 128 \<Longrightarrow> is_digit U n = in_ranges n [(48, 57)]"
  by (simp add: is_digit_def ok_ascii(3))

lemma run_admit:
  "run U eng sql =
     (case admit U sql of
        Rejected r \<Rightarrow> (Inr (Str (reason_text r)), [])
      | Accepted t \<Rightarrow>
          (case with_block eng t of
             (Inl e, tr) \<Rightarrow> (Inr (Str (str_of ''ERROR: '' @ message e)), tr)
           | (Inr out, tr) \<Rightarrow> (Inr out, tr)))"
  by (simp add: run_def admit_def normalize_def bounded_def reason_text_def Let_def)

lemma rstrip_replicate: "\<exists>n. s = rstrip [c] s @ replicate n c"
proof -
  let ?P = "\<lambda>x. x \<in> set [c]"
  obtain n where n: "takeWhile ?P (rev s) = replicate n c"
  proof
    show "takeWhile ?P (rev s) = replicate (length (takeWhile ?P (rev s))) c"
      by (rule replicate_length_same [symmetric]) (auto dest: set_takeWhileD)
  qed
  have "rev s = takeWhile ?P (rev s) @ dropWhile ?P (rev s)" by simp
  then have "rev (rev s) = rev (takeWhile ?P (rev s) @ dropWhile ?P (rev s))" by (rule arg_cong)
  then have "s = rev (dropWhile ?P (rev s)) @ rev (replicate n c)"
    unfolding n [symmetric] by (simp only: rev_append rev_rev_ident)
  then have "s = rstrip [c] s @ replicate n c" by (simp add: rstrip_def)
  then show ?thesis ..
qed

lemma rstrip_last: "rstrip [c] s = [] \<or> last (rstrip [c] s) \<noteq> c"
proof (cases "dropWhile (\<lambda>x. x \<in> set [c]) (rev s)")
  case Nil
  then show ?thesis by (simp add: rstrip_def)
next
  case (Cons y ys)
  have "dropWhile (\<lambda>x. x \<in> set [c]) (rev s) \<noteq> []"
    unfolding Cons by (rule list.distinct(2))
  then have "\<not> hd (dropWhile (\<lambda>x. x \<in> set [c]) (rev s)) \<in> set [c]"
    by (rule hd_dropWhile)
  with Cons show ?thesis by (simp add: rstrip_def)
qed

lemma semicolon: "str_of '';'' = [ch CHR '';'']"
  by (simp add: str_of_def)

section \<open>Appending to a text\<close>

lemma word_after_append:
  "u = [] \<or> \<not> is_word U (hd u) \<Longrightarrow> word_after U (zs @ u) = word_after U zs"
  by (cases zs; cases u) (auto simp add: word_after_def)

lemma ends_word_append:
  "u = [] \<or> \<not> is_word U (hd u) \<Longrightarrow> ends_word U (zs @ u) = ends_word U zs"
  by (simp add: ends_word_iff word_after_append)

lemma ci_prefix_append:
  assumes "ucd_ok U" "\<forall>c \<in> set kw. letter c" "u = [] \<or> \<not> is_word U (hd u)"
  shows "ci_prefix U kw (ys @ u) = ci_prefix U kw ys"
  using assms
proof (induction U kw ys rule: ci_prefix.induct)
  case (1 U ys)
  show ?case by simp
next
  case (2 U c cs)
  then show ?case by (cases u) (auto dest: letter_match_word)
next
  case (3 U c cs y ys)
  then show ?case by simp
qed

lemma accepts_write_rx_append:
  assumes ok: "ucd_ok U" and u: "u = [] \<or> \<not> is_word U (hd u)"
  shows "accepts U write_rx (p, ys @ u) = accepts U write_rx (p, ys)"
proof -
  have w: "\<forall>kw \<in> set write_keywords. \<forall>c \<in> set kw. letter c"
    by (simp add: write_keywords_def letter_def ch_def)
  have "ci_prefix U kw (ys @ u) \<and> \<not> word_after U (drop (length kw) (ys @ u)) \<longleftrightarrow>
        ci_prefix U kw ys \<and> \<not> word_after U (drop (length kw) ys)"
    if "kw \<in> set write_keywords" for kw
  proof -
    have c: "ci_prefix U kw (ys @ u) = ci_prefix U kw ys"
      using w that u ok by (simp add: ci_prefix_append)
    have "drop (length kw) (ys @ u) = drop (length kw) ys @ u" if "ci_prefix U kw ys"
      using ci_prefix_length [OF that] by simp
    with c u show ?thesis by (auto simp add: word_after_append)
  qed
  then show ?thesis unfolding accepts_write_rx [OF ok] by blast
qed

lemma search_from_append:
  assumes loc: "\<And>p ys. accepts U r (p, ys @ u) = accepts U r (p, ys)"
  shows "search_from U r p (xs @ u) \<longleftrightarrow>
           search_from U r p xs \<or> search_from U r (prev_after p xs) u"
proof (induction xs arbitrary: p)
  case Nil
  have "accepts U r (p, []) \<Longrightarrow> search_from U r p u"
    using loc [of p "[]"] by (cases u) (simp_all add: accepts_def)
  then show ?case by (auto simp add: accepts_def)
next
  case (Cons x xs)
  have "accepts U r (p, x # xs @ u) = accepts U r (p, x # xs)"
    using loc [of p "x # xs"] by simp
  with Cons show ?case by (simp add: accepts_def)
qed

lemma search_write_rx_limit:
  assumes ok: "ucd_ok U"
  shows "\<not> search_from U write_rx q (str_of '' LIMIT 200'')"
  by (cases q)
    (simp_all add: lit.simps rmatch_Star write_rx_def word_before_def word_after_def str_of_def
      ch_def is_word_ascii [OF ok] same_ignoring_case_ascii [OF ok] ok_ascii(4) [OF ok])

lemma re_search_write_rx_limit:
  assumes ok: "ucd_ok U"
  shows "re_search U write_rx (s @ str_of '' LIMIT 200'') = re_search U write_rx s"
proof -
  have "\<not> is_word U (hd (str_of '' LIMIT 200''))"
    by (simp add: str_of_def ch_def is_word_ascii [OF ok])
  then have "search_from U write_rx None (s @ str_of '' LIMIT 200'') \<longleftrightarrow>
      search_from U write_rx None s \<or>
      search_from U write_rx (prev_after None s) (str_of '' LIMIT 200'')"
    by (intro search_from_append accepts_write_rx_append [OF ok] disjI2)
  with search_write_rx_limit [OF ok] show ?thesis unfolding re_search_def by blast
qed

lemma has_limit_clause_limit:
  assumes ok: "ucd_ok U"
  shows "has_limit_clause U (s @ str_of '' LIMIT 200'')"
proof -
  have "s @ str_of '' LIMIT 200'' =
      (s @ str_of '' '') @ str_of ''LIMIT'' @ str_of '' '' @ str_of ''200'' @ []"
    by (simp add: str_of_def)
  moreover have "starts_word U (s @ str_of '' '')"
    by (simp add: starts_word_def str_of_def ch_def is_word_ascii [OF ok])
  moreover have "same_word U (str_of ''LIMIT'') ''LIMIT''"
    by (simp add: same_word_Cons str_of_def ch_def same_ignoring_case_ascii [OF ok]
        ok_ascii(4) [OF ok])
  moreover have "\<forall>c \<in> set (str_of '' ''). is_space U c"
    by (simp add: str_of_def ch_def is_space_ascii [OF ok])
  moreover have "\<forall>c \<in> set (str_of ''200''). is_digit U c"
    by (simp add: str_of_def ch_def is_digit_ascii [OF ok])
  moreover have "ends_word U []" by (simp add: ends_word_def)
  moreover have "str_of '' '' \<noteq> []" "str_of ''200'' \<noteq> []" by (simp_all add: str_of_def)
  ultimately show ?thesis
    unfolding has_limit_clause_def by blast
qed

lemma begins_with_select_limit:
  assumes ok: "ucd_ok U" and sel: "begins_with_select U s"
  shows "begins_with_select U (s @ str_of '' LIMIT 200'')"
proof -
  from sel obtain ws w post where h: "s = ws @ w @ post" "\<forall>c \<in> set ws. is_space U c"
      "same_word U w ''SELECT''" "ends_word U post"
    unfolding begins_with_select_def by blast
  have "\<not> is_word U (hd (str_of '' LIMIT 200''))"
    by (simp add: str_of_def ch_def is_word_ascii [OF ok])
  then have "ends_word U (post @ str_of '' LIMIT 200'')"
    using h(4) by (simp add: ends_word_append)
  moreover have "s @ str_of '' LIMIT 200'' = ws @ w @ (post @ str_of '' LIMIT 200'')"
    using h(1) by simp
  ultimately show ?thesis unfolding begins_with_select_def using h(2,3) by blast
qed


section \<open>Removing trailing whitespace\<close>

lemma split_before_spaces:
  assumes "s @ ws = a @ post" "\<forall>c \<in> set ws. is_space U c" "a \<noteq> []" "\<not> is_space U (last a)"
  shows "\<exists>post'. s = a @ post' \<and> post = post' @ ws"
proof -
  from assms(1) obtain us where
    "(s = a @ us \<and> us @ ws = post) \<or> (s @ us = a \<and> ws = us @ post)"
    unfolding append_eq_append_conv2 by blast
  then consider t where "s = a @ t" "post = t @ ws"
    | t where "a = s @ t" "ws = t @ post" "t \<noteq> []"
    by (cases "us = []") auto
  then show ?thesis
  proof cases
    case 1
    then show ?thesis by blast
  next
    case 2
    then have "last a = last t" by simp
    moreover have "last t \<in> set ws" using 2 by simp
    ultimately show ?thesis using assms(2,4) by simp
  qed
qed

lemma ends_word_spaces:
  "ends_word U (post @ ws) \<Longrightarrow> ends_word U post"
  by (cases post) (simp_all add: ends_word_def)

lemma same_word_last_not_space:
  assumes "ucd_ok U" "same_word U w kw" "kw \<noteq> []" "letter (last kw) \<or> last kw = CHR ''(''"
  shows "w \<noteq> [] \<and> \<not> is_space U (last w)"
  using same_word_last [OF assms(2,3)] token_match_not_space [OF assms(1,4)] by blast

lemma has_write_keyword_spaces:
  assumes "ucd_ok U" "has_write_keyword U s" "\<forall>c \<in> set ws. is_space U c"
  shows "has_write_keyword U (s @ ws)"
proof -
  from assms(2) obtain kw pre w post where h: "kw \<in> set write_keywords" "s = pre @ w @ post"
      "starts_word U pre" "same_word U w kw" "ends_word U post"
    unfolding has_write_keyword_def by blast
  have "ws = [] \<or> \<not> is_word U (hd ws)"
    using assms(1,3) by (cases ws) (simp_all add: space_not_word)
  then have "ends_word U (post @ ws)" using h(5) by (simp add: ends_word_append)
  moreover have "s @ ws = pre @ w @ (post @ ws)" using h(2) by simp
  ultimately show ?thesis unfolding has_write_keyword_def using h(1,3,4) by blast
qed

lemma begins_with_select_spaces:
  assumes ok: "ucd_ok U" and "begins_with_select U (s @ ws)" and sp: "\<forall>c \<in> set ws. is_space U c"
  shows "begins_with_select U s"
proof -
  from assms(2) obtain sp w post where h: "s @ ws = sp @ w @ post" "\<forall>c \<in> set sp. is_space U c"
      "same_word U w ''SELECT''" "ends_word U post"
    unfolding begins_with_select_def by blast
  have "w \<noteq> [] \<and> \<not> is_space U (last w)"
    using ok h(3) by (rule same_word_last_not_space) (simp_all add: letter_def ch_def)
  then have "sp @ w \<noteq> []" "\<not> is_space U (last (sp @ w))" by simp_all
  moreover have "s @ ws = (sp @ w) @ post" using h(1) by simp
  ultimately obtain post' where p: "s = (sp @ w) @ post'" "post = post' @ ws"
    using split_before_spaces [OF _ sp] by blast
  then have "ends_word U post'" using h(4) ends_word_spaces by blast
  with p h(2,3) show ?thesis unfolding begins_with_select_def by auto
qed

lemma has_limit_clause_spaces:
  assumes ok: "ucd_ok U" and "has_limit_clause U (s @ ws)" and sp: "\<forall>c \<in> set ws. is_space U c"
  shows "has_limit_clause U s"
proof -
  from assms(2) obtain pre w sp ds post where h: "s @ ws = pre @ w @ sp @ ds @ post"
      "starts_word U pre" "same_word U w ''LIMIT''" "sp \<noteq> []" "\<forall>c \<in> set sp. is_space U c"
      "ds \<noteq> []" "\<forall>c \<in> set ds. is_digit U c" "ends_word U post"
    unfolding has_limit_clause_def by blast
  let ?a = "pre @ w @ sp @ ds"
  have "\<not> is_space U (last ds)" using h(6,7) by (simp add: digit_not_space [OF ok])
  then have "?a \<noteq> []" "\<not> is_space U (last ?a)" using h(6) by simp_all
  moreover have "s @ ws = ?a @ post" using h(1) by simp
  ultimately obtain post' where p: "s = ?a @ post'" "post = post' @ ws"
    using split_before_spaces [OF _ sp] by blast
  then have "ends_word U post'" using h(8) ends_word_spaces by blast
  moreover have "s = pre @ w @ sp @ ds @ post'" using p(1) by simp
  ultimately show ?thesis unfolding has_limit_clause_def using h(2-7) by blast
qed

lemma has_aggregate_spaces:
  assumes ok: "ucd_ok U" and "has_aggregate U (s @ ws)" and sp: "\<forall>c \<in> set ws. is_space U c"
  shows "has_aggregate U s"
proof -
  from assms(2) consider
    kw pre w post where "kw \<in> set aggregate_calls" "s @ ws = pre @ w @ post"
      "starts_word U pre" "same_word U w kw"
    | pre g sp b post where "s @ ws = pre @ g @ sp @ b @ post" "starts_word U pre"
      "same_word U g ''GROUP''" "sp \<noteq> []" "\<forall>c \<in> set sp. is_space U c" "same_word U b ''BY''"
      "ends_word U post"
    unfolding has_aggregate_def by blast
  then show ?thesis
  proof cases
    case 1
    have "kw \<noteq> [] \<and> last kw = CHR ''(''"
      using 1(1) by (auto simp add: aggregate_calls_def)
    then have "w \<noteq> [] \<and> \<not> is_space U (last w)"
      using same_word_last_not_space [OF ok 1(4)] by blast
    then have "pre @ w \<noteq> []" "\<not> is_space U (last (pre @ w))" by simp_all
    moreover have "s @ ws = (pre @ w) @ post" using 1(2) by simp
    ultimately obtain post' where "s = (pre @ w) @ post'"
      using split_before_spaces [OF _ sp] by blast
    then have "s = pre @ w @ post'" by simp
    with 1(1,3,4) show ?thesis unfolding has_aggregate_def by blast
  next
    case 2
    let ?a = "pre @ g @ sp @ b"
    have "b \<noteq> [] \<and> \<not> is_space U (last b)"
      using ok 2(6) by (rule same_word_last_not_space) (simp_all add: letter_def ch_def)
    then have "?a \<noteq> []" "\<not> is_space U (last ?a)" by simp_all
    moreover have "s @ ws = ?a @ post" using 2(1) by simp
    ultimately obtain post' where p: "s = ?a @ post'" "post = post' @ ws"
      using split_before_spaces [OF _ sp] by blast
    then have "ends_word U post'" using 2(7) ends_word_spaces by blast
    moreover have "s = pre @ g @ sp @ b @ post'" using p(1) by simp
    ultimately show ?thesis unfolding has_aggregate_def using 2(2-6) by blast
  qed
qed

section \<open>Normalizing twice\<close>

lemma dropWhile_id: "xs = [] \<or> \<not> P (hd xs) \<Longrightarrow> dropWhile P xs = xs"
  by (cases xs) auto

lemma rstrip_space_split: "\<exists>ws. s = rstrip_space U s @ ws \<and> (\<forall>c \<in> set ws. is_space U c)"
proof -
  have "rev s = takeWhile (is_space U) (rev s) @ dropWhile (is_space U) (rev s)" by simp
  then have "rev (rev s) = rev (takeWhile (is_space U) (rev s) @ dropWhile (is_space U) (rev s))"
    by (rule arg_cong)
  then have "s = rstrip_space U s @ rev (takeWhile (is_space U) (rev s))"
    by (simp only: rev_append rev_rev_ident rstrip_space_def)
  moreover have "\<forall>c \<in> set (rev (takeWhile (is_space U) (rev s))). is_space U c"
    by (auto dest: set_takeWhileD)
  ultimately show ?thesis by blast
qed

lemma rstrip_space_id: "s = [] \<or> \<not> is_space U (last s) \<Longrightarrow> rstrip_space U s = s"
proof -
  assume "s = [] \<or> \<not> is_space U (last s)"
  then have "rev s = [] \<or> \<not> is_space U (hd (rev s))" by (auto simp add: hd_rev)
  then have "dropWhile (is_space U) (rev s) = rev s" by (rule dropWhile_id)
  then show ?thesis by (simp add: rstrip_space_def)
qed

lemma rstrip_id: "c \<notin> set s \<Longrightarrow> rstrip [c] s = s"
proof -
  assume "c \<notin> set s"
  then have "rev s = [] \<or> \<not> (hd (rev s) \<in> set [c])"
    by (cases "rev s") (auto simp add: hd_rev)
  then have "dropWhile (\<lambda>x. x \<in> set [c]) (rev s) = rev s" by (rule dropWhile_id)
  then show ?thesis by (simp add: rstrip_def)
qed

lemma strip_eq: "s = [] \<or> \<not> is_space U (hd s) \<Longrightarrow> strip U s = rstrip_space U s"
  by (simp add: strip_def rstrip_space_def dropWhile_id)

lemma rstrip_space_hd: "rstrip_space U s \<noteq> [] \<Longrightarrow> hd (rstrip_space U s) = hd s"
  using rstrip_space_split [where s = s and U = U] by (metis hd_append2)

lemma strip_hd: "strip U s = [] \<or> \<not> is_space U (hd (strip U s))"
proof -
  let ?a = "dropWhile (is_space U) s"
  have s: "strip U s = rstrip_space U ?a" by (simp add: strip_def rstrip_space_def)
  show ?thesis
  proof (cases "strip U s = []")
    case False
    then have "hd (strip U s) = hd ?a" unfolding s by (rule rstrip_space_hd)
    moreover have "?a \<noteq> []"
    proof
      assume "?a = []"
      then have "rstrip_space U ?a = rstrip_space U []" by (rule arg_cong)
      then have "strip U s = []" unfolding s by (simp only: rstrip_space_def rev.simps dropWhile.simps)
      with False show False ..
    qed
    then have "\<not> is_space U (hd ?a)" by (rule hd_dropWhile)
    ultimately show ?thesis by simp
  qed simp
qed

lemma normalize_hd: "normalize U sql = [] \<or> \<not> is_space U (hd (normalize U sql))"
proof (cases "normalize U sql = []")
  case False
  obtain n where "strip U sql = normalize U sql @ replicate n (ch CHR '';'')"
    using rstrip_replicate [where s = "strip U sql" and c = "ch CHR '';''"]
    by (auto simp add: normalize_def semicolon)
  then have "hd (strip U sql) = hd (normalize U sql)" "strip U sql \<noteq> []"
    using False by (simp_all add: hd_append)
  with strip_hd [where s = sql and U = U] show ?thesis by auto
qed simp

lemma normalize_again:
  assumes "s = normalize U sql" "ch CHR '';'' \<notin> set s"
  shows "normalize U s = rstrip_space U s"
proof -
  have "strip U s = rstrip_space U s"
    using normalize_hd [where sql = sql and U = U] assms(1) by (simp add: strip_eq)
  moreover have "set (rstrip_space U s) \<subseteq> set s"
    using rstrip_space_split [where s = s and U = U] by (metis Un_upper1 set_append)
  then have "ch CHR '';'' \<notin> set (rstrip_space U s)" using assms(2) by blast
  then have "rstrip [ch CHR '';''] (rstrip_space U s) = rstrip_space U s" by (rule rstrip_id)
  ultimately show ?thesis by (simp add: normalize_def semicolon)
qed

lemma normalize_limit:
  assumes "ucd_ok U" "s = normalize U sql" "s \<noteq> []" "ch CHR '';'' \<notin> set s"
  shows "normalize U (s @ str_of '' LIMIT 200'') = s @ str_of '' LIMIT 200''"
    and "rstrip_space U (s @ str_of '' LIMIT 200'') = s @ str_of '' LIMIT 200''"
proof -
  let ?t = "s @ str_of '' LIMIT 200''"
  have "\<not> is_space U (hd ?t)"
    using normalize_hd [where sql = sql and U = U] assms(2,3) by simp
  then have "strip U ?t = rstrip_space U ?t" by (simp add: strip_eq)
  moreover show r: "rstrip_space U ?t = ?t"
    by (rule rstrip_space_id) (simp add: str_of_def ch_def is_space_ascii [OF assms(1)])
  moreover have "ch CHR '';'' \<notin> set ?t" using assms(4) by (simp add: str_of_def ch_def)
  then have "rstrip [ch CHR '';''] ?t = ?t" by (rule rstrip_id)
  ultimately show "normalize U ?t = ?t" by (simp add: normalize_def semicolon)
qed

section \<open>The filter and the method, in the specification's vocabulary\<close>

lemma admit_cases:
  assumes ok: "ucd_ok U"
  shows "admit U sql =
     (if has_write_keyword U (normalize U sql) then Rejected WriteOperationForbidden
      else if ch CHR '';'' \<in> set (normalize U sql) then Rejected MultipleStatementsForbidden
      else if \<not> begins_with_select U (normalize U sql) then Rejected OnlySelectAllowed
      else Accepted (if \<not> has_limit_clause U (normalize U sql) \<and> \<not> has_aggregate U (normalize U sql)
                     then normalize U sql @ str_of '' LIMIT 200'' else normalize U sql))"
  by (simp add: admit_def bounded_def Let_def re_search_write_rx [OF ok] re_match_select_rx [OF ok]
        re_search_limit_rx [OF ok] re_search_aggregate_rx [OF ok])

lemma with_block_trace:
  "snd (with_block eng s) = [Connect] \<or> snd (with_block eng s) = [Connect, Execute s, Close]"
  by (simp add: with_block_def Let_def split: option.splits sum.splits)

lemma run_accepted_trace:
  "admit U sql = Accepted t \<Longrightarrow> snd (run U eng sql) = snd (with_block eng t)"
  by (simp add: run_admit split: prod.splits sum.splits)

lemma has_aggregate_mentions: "has_aggregate U s \<Longrightarrow> mentions_aggregate U s"
  unfolding has_aggregate_def mentions_aggregate_def by blast

text \<open>For evaluation, a token is compared with the text one character at a time.\<close>

declare ci_prefix.simps(3) [simp del]

section \<open>The claims\<close>

text \<open>
  Every statement below is about an arbitrary character table \<open>U\<close> that meets \<open>ucd_ok\<close>, and
  so about every text a Python \<^verbatim>\<open>str\<close> can hold. The instances are evaluated under
  \<open>ucd_sample\<close>; a character outside ASCII is written as its code point: 383 is the long s,
  305 the dotless i.
\<close>

subsection \<open>C1: write keywords\<close>

text \<open>
  C1. When the normalized text contains one of INSERT, UPDATE, DELETE, DROP, TRUNCATE, ALTER,
  CREATE, REPLACE as a whole word, ignoring case as \<^verbatim>\<open>re.I\<close> does, the filter rejects the
  candidate with \<open>WriteOperationForbidden\<close>, and the method returns the string
  \<^verbatim>\<open>ERROR: write operations are not allowed.\<close> without touching the database. When no
  keyword occurs as a whole word, as in a column named \<^verbatim>\<open>updated_at\<close>, this rejection
  does not happen.
\<close>

theorem write_keyword_rejected:
  assumes "ucd_ok U"
  shows
    "(has_write_keyword U (normalize U sql) \<longrightarrow>
        admit U sql = Rejected WriteOperationForbidden \<and>
        run U eng sql = (Inr (Str (str_of ''ERROR: write operations are not allowed.'')), [])) \<and>
     (\<not> has_write_keyword U (normalize U sql) \<longrightarrow>
        admit U sql \<noteq> Rejected WriteOperationForbidden)"
  by (simp add: run_admit admit_def re_search_write_rx [OF assms] reason_text_def Let_def)

theorem write_keyword_rejected_witness:
  "ucd_ok ucd_sample \<and>
   has_write_keyword ucd_sample (normalize ucd_sample (str_of ''update t set updated_at = 1;'')) \<and>
   admit ucd_sample (str_of ''update t set updated_at = 1;'') = Rejected WriteOperationForbidden \<and>
   \<not> has_write_keyword ucd_sample (normalize ucd_sample (str_of ''SELECT updated_at FROM t'')) \<and>
   admit ucd_sample (str_of ''SELECT updated_at FROM t'') \<noteq> Rejected WriteOperationForbidden \<and>
   has_write_keyword ucd_sample
     (normalize ucd_sample (str_of ''SELECT in'' @ [383] @ str_of ''ert FROM t'')) \<and>
   admit ucd_sample (str_of ''SELECT in'' @ [383] @ str_of ''ert FROM t'') =
     Rejected WriteOperationForbidden"
proof -
  let ?a = "str_of ''update t set updated_at = 1;''"
  let ?b = "str_of ''SELECT updated_at FROM t''"
  let ?c = "str_of ''SELECT in'' @ [383] @ str_of ''ert FROM t''"
  note iff = re_search_write_rx [OF sample_ok, symmetric]
  have a: "has_write_keyword ucd_sample (normalize ucd_sample ?a)"
    unfolding iff by (simp add: eval_rules)
  have b: "\<not> has_write_keyword ucd_sample (normalize ucd_sample ?b)"
    unfolding iff by (simp add: eval_rules)
  have c: "has_write_keyword ucd_sample (normalize ucd_sample ?c)"
    unfolding iff by (simp add: eval_rules)
  from a b c sample_ok show ?thesis
    using write_keyword_rejected [OF sample_ok, of ?a] write_keyword_rejected [OF sample_ok, of ?b]
      write_keyword_rejected [OF sample_ok, of ?c]
    by blast
qed

subsection \<open>C2: trailing statement terminators\<close>

text \<open>
  C2, as the claim words it, asks that at most one trailing terminator is stripped, so that
  \<^verbatim>\<open>SELECT 1;;\<close> is rejected with \<open>MultipleStatementsForbidden\<close>. The code strips them all and
  accepts that text; and a terminator that remains does not decide the verdict when a write
  keyword is present.
\<close>

theorem double_terminator_accepted:
  "normalize ucd_sample (str_of ''SELECT 1;;'') = str_of ''SELECT 1'' \<and>
   admit ucd_sample (str_of ''SELECT 1;;'') = Accepted (str_of ''SELECT 1 LIMIT 200'') \<and>
   ch CHR '';'' \<in> set (normalize ucd_sample (str_of ''DROP TABLE t; SELECT 1'')) \<and>
   admit ucd_sample (str_of ''DROP TABLE t; SELECT 1'') = Rejected WriteOperationForbidden"
  by (simp add: eval_rules)

text \<open>
  C2, amended. Normalization removes every trailing terminator of the trimmed text: the
  trimmed text is the normalized text followed by terminators only, and the normalized text
  does not end with one. A terminator that is still in the normalized text causes
  \<open>MultipleStatementsForbidden\<close> when no write keyword occurs in it.
\<close>

theorem trailing_terminators_stripped:
  assumes "ucd_ok U"
  shows
    "(\<exists>n. strip U sql = normalize U sql @ replicate n (ch CHR '';'')) \<and>
     (normalize U sql = [] \<or> last (normalize U sql) \<noteq> ch CHR '';'') \<and>
     (\<not> has_write_keyword U (normalize U sql) \<and> ch CHR '';'' \<in> set (normalize U sql) \<longrightarrow>
        admit U sql = Rejected MultipleStatementsForbidden \<and>
        run U eng sql = (Inr (Str (str_of ''ERROR: multiple statements are not allowed.'')), []))"
  using rstrip_replicate [where s = "strip U sql" and c = "ch CHR '';''"]
    rstrip_last [where s = "strip U sql" and c = "ch CHR '';''"]
  by (simp add: run_admit admit_def re_search_write_rx [OF assms] reason_text_def Let_def
      normalize_def semicolon)

theorem trailing_terminators_stripped_witness:
  "ucd_ok ucd_sample \<and>
   \<not> has_write_keyword ucd_sample (normalize ucd_sample (str_of ''SELECT 1; SELECT 2;;'')) \<and>
   ch CHR '';'' \<in> set (normalize ucd_sample (str_of ''SELECT 1; SELECT 2;;'')) \<and>
   admit ucd_sample (str_of ''SELECT 1; SELECT 2;;'') = Rejected MultipleStatementsForbidden"
proof -
  let ?q = "str_of ''SELECT 1; SELECT 2;;''"
  have a: "\<not> has_write_keyword ucd_sample (normalize ucd_sample ?q)"
    unfolding re_search_write_rx [OF sample_ok, symmetric] by (simp add: eval_rules)
  have b: "ch CHR '';'' \<in> set (normalize ucd_sample ?q)"
    by (simp add: eval_rules)
  from a b sample_ok show ?thesis
    using trailing_terminators_stripped [OF sample_ok, of ?q] by blast
qed

subsection \<open>C9: the two scripts\<close>

text \<open>
  C9. \<^verbatim>\<open>SafeSQLTool._run\<close> of \<^verbatim>\<open>04_complex_queries.py\<close> and of \<^verbatim>\<open>03_guardrailed_agent.py\<close>
  are the same function: for every engine and every input they return the same value and
  send the same statement to the database.
\<close>

theorem scripts_agree: "run_04 U eng sql = run U eng sql"
proof -
  have "write_rx_04 = write_rx"
    unfolding write_rx_04_def write_rx_def by (rule refl)
  moreover have "select_rx_04 = select_rx"
    unfolding select_rx_04_def select_rx_def by (rule refl)
  moreover have "limit_rx_04 = limit_rx"
    unfolding limit_rx_04_def limit_rx_def by (rule refl)
  moreover have "aggregate_rx_04 = aggregate_rx"
    unfolding aggregate_rx_04_def aggregate_rx_def by (rule refl)
  ultimately show ?thesis
    unfolding run_04_def run_def by (simp only:)
qed

subsection \<open>C3: only SELECT\<close>

text \<open>
  C3. A candidate that passes the write-keyword and the multiple-statement checks, and whose
  normalized text does not begin, after optional whitespace and ignoring case as \<^verbatim>\<open>re.I\<close>
  does, with the keyword SELECT, is rejected with \<open>OnlySelectAllowed\<close>; the method returns
  the string \<^verbatim>\<open>ERROR: only SELECT statements are allowed.\<close> and nothing reaches the database.
\<close>

theorem non_select_rejected:
  assumes "ucd_ok U"
    and "\<not> has_write_keyword U (normalize U sql)" "ch CHR '';'' \<notin> set (normalize U sql)"
    and "\<not> begins_with_select U (normalize U sql)"
  shows "admit U sql = Rejected OnlySelectAllowed \<and>
         run U eng sql = (Inr (Str (str_of ''ERROR: only SELECT statements are allowed.'')), [])"
  using assms by (simp add: run_admit admit_cases reason_text_def)

theorem non_select_rejected_witness:
  "ucd_ok ucd_sample \<and>
   \<not> has_write_keyword ucd_sample
       (normalize ucd_sample (str_of ''WITH x AS (SELECT 1) SELECT * FROM x'')) \<and>
   ch CHR '';'' \<notin> set (normalize ucd_sample (str_of ''WITH x AS (SELECT 1) SELECT * FROM x'')) \<and>
   \<not> begins_with_select ucd_sample
       (normalize ucd_sample (str_of ''WITH x AS (SELECT 1) SELECT * FROM x'')) \<and>
   admit ucd_sample (str_of ''WITH x AS (SELECT 1) SELECT * FROM x'') =
     Rejected OnlySelectAllowed \<and>
   begins_with_select ucd_sample (normalize ucd_sample ([383] @ str_of ''elect 1'')) \<and>
   admit ucd_sample ([383] @ str_of ''elect 1'') = Accepted ([383] @ str_of ''elect 1 LIMIT 200'')"
proof -
  let ?q = "str_of ''WITH x AS (SELECT 1) SELECT * FROM x''"
  have a: "\<not> has_write_keyword ucd_sample (normalize ucd_sample ?q)"
    unfolding re_search_write_rx [OF sample_ok, symmetric] by (simp add: eval_rules)
  have b: "ch CHR '';'' \<notin> set (normalize ucd_sample ?q)" by (simp add: eval_rules)
  have c: "\<not> begins_with_select ucd_sample (normalize ucd_sample ?q)"
    unfolding re_match_select_rx [OF sample_ok, symmetric] by (simp add: eval_rules)
  have d: "begins_with_select ucd_sample (normalize ucd_sample ([383] @ str_of ''elect 1''))"
    unfolding re_match_select_rx [OF sample_ok, symmetric] by (simp add: eval_rules)
  have e: "admit ucd_sample ([383] @ str_of ''elect 1'') =
      Accepted ([383] @ str_of ''elect 1 LIMIT 200'')"
    by (simp add: eval_rules)
  from a b c d e sample_ok non_select_rejected [OF sample_ok a b c] show ?thesis by blast
qed

subsection \<open>C4: the bounding rewrite\<close>

text \<open>
  C4, as the claim words it, asks that a text in which one of \<^verbatim>\<open>COUNT(\<close>, \<^verbatim>\<open>GROUP BY\<close>, \<^verbatim>\<open>SUM(\<close>,
  \<^verbatim>\<open>AVG(\<close>, \<^verbatim>\<open>MAX(\<close>, \<^verbatim>\<open>MIN(\<close> occurs is accepted unchanged. The pattern of the code has a word
  boundary before each token, so the \<^verbatim>\<open>count(\<close> inside \<^verbatim>\<open>discount(\<close> does not exempt the text
  from the limit.
\<close>

theorem embedded_aggregate_is_limited:
  "normalize ucd_sample (str_of ''SELECT discount(1) FROM t'') = str_of ''SELECT discount(1) FROM t'' \<and>
   mentions_aggregate ucd_sample (str_of ''SELECT discount(1) FROM t'') \<and>
   \<not> has_limit_clause ucd_sample (str_of ''SELECT discount(1) FROM t'') \<and>
   admit ucd_sample (str_of ''SELECT discount(1) FROM t'') =
     Accepted (str_of ''SELECT discount(1) FROM t LIMIT 200'') \<and>
   admit ucd_sample (str_of ''SELECT discount(1) FROM t'') \<noteq>
     Accepted (str_of ''SELECT discount(1) FROM t'')"
proof -
  let ?q = "str_of ''SELECT discount(1) FROM t''"
  have n: "normalize ucd_sample ?q = ?q" by (simp add: eval_rules)
  have "?q = str_of ''SELECT dis'' @ str_of ''count('' @ str_of ''1) FROM t''"
    by (simp add: str_of_def)
  moreover have "same_word ucd_sample (str_of ''count('') ''COUNT(''"
    by (simp add: same_word_Cons eval_rules)
  moreover have "''COUNT('' \<in> set aggregate_calls" by (simp add: aggregate_calls_def)
  ultimately have m: "mentions_aggregate ucd_sample ?q"
    unfolding mentions_aggregate_def by blast
  have l: "\<not> has_limit_clause ucd_sample ?q"
    unfolding re_search_limit_rx [OF sample_ok, symmetric] by (simp add: eval_rules)
  have a: "admit ucd_sample ?q = Accepted (str_of ''SELECT discount(1) FROM t LIMIT 200'')"
    by (simp add: eval_rules)
  have "str_of ''SELECT discount(1) FROM t LIMIT 200'' \<noteq> ?q" by (simp add: str_of_def)
  with n m l a show ?thesis by simp
qed

text \<open>
  C4, amended. A candidate that passes the three checks is accepted. When its normalized
  text has neither a clause \<^verbatim>\<open>LIMIT <integer>\<close> nor one of \<^verbatim>\<open>COUNT(\<close>, \<^verbatim>\<open>GROUP BY\<close>, \<^verbatim>\<open>SUM(\<close>, \<^verbatim>\<open>AVG(\<close>,
  \<^verbatim>\<open>MAX(\<close>, \<^verbatim>\<open>MIN(\<close> beginning a word (not preceded by a letter, a digit or an underscore; the
  two words of \<^verbatim>\<open>GROUP BY\<close> separated by whitespace and the second ending a word), the final
  text is the normalized text followed by \<^verbatim>\<open> LIMIT 200\<close>, once; otherwise it is the
  normalized text itself.
\<close>

theorem bounding_rewrite:
  assumes "ucd_ok U"
    and "\<not> has_write_keyword U (normalize U sql)" "ch CHR '';'' \<notin> set (normalize U sql)"
    and "begins_with_select U (normalize U sql)"
  shows "(\<not> has_limit_clause U (normalize U sql) \<and> \<not> has_aggregate U (normalize U sql) \<longrightarrow>
            admit U sql = Accepted (normalize U sql @ str_of '' LIMIT 200'')) \<and>
         (has_limit_clause U (normalize U sql) \<or> has_aggregate U (normalize U sql) \<longrightarrow>
            admit U sql = Accepted (normalize U sql))"
  using assms by (simp add: admit_cases)

theorem bounding_rewrite_witness:
  "ucd_ok ucd_sample \<and>
   admit ucd_sample (str_of ''SELECT id FROM customers'') =
     Accepted (str_of ''SELECT id FROM customers'' @ str_of '' LIMIT 200'') \<and>
   admit ucd_sample (str_of ''SELECT count(*) FROM orders'') =
     Accepted (str_of ''SELECT count(*) FROM orders'') \<and>
   admit ucd_sample (str_of ''select id from t limit 5;'') =
     Accepted (str_of ''select id from t limit 5'')"
proof -
  let ?a = "str_of ''SELECT id FROM customers''"
  let ?b = "str_of ''SELECT count(*) FROM orders''"
  let ?c = "str_of ''select id from t limit 5;''"
  have na: "normalize ucd_sample ?a = ?a" and nb: "normalize ucd_sample ?b = ?b"
    and nc: "normalize ucd_sample ?c = str_of ''select id from t limit 5''"
    by (simp_all add: eval_rules)
  have wa: "\<not> has_write_keyword ucd_sample (normalize ucd_sample ?a)"
    and wb: "\<not> has_write_keyword ucd_sample (normalize ucd_sample ?b)"
    and wc: "\<not> has_write_keyword ucd_sample (normalize ucd_sample ?c)"
    unfolding re_search_write_rx [OF sample_ok, symmetric] by (simp_all add: eval_rules)
  have ma: "ch CHR '';'' \<notin> set (normalize ucd_sample ?a)"
    and mb: "ch CHR '';'' \<notin> set (normalize ucd_sample ?b)"
    and mc: "ch CHR '';'' \<notin> set (normalize ucd_sample ?c)"
    by (simp_all add: eval_rules)
  have sa: "begins_with_select ucd_sample (normalize ucd_sample ?a)"
    and sb: "begins_with_select ucd_sample (normalize ucd_sample ?b)"
    and sc: "begins_with_select ucd_sample (normalize ucd_sample ?c)"
    unfolding re_match_select_rx [OF sample_ok, symmetric] by (simp_all add: eval_rules)
  have la: "\<not> has_limit_clause ucd_sample (normalize ucd_sample ?a)"
    and lc: "has_limit_clause ucd_sample (normalize ucd_sample ?c)"
    unfolding re_search_limit_rx [OF sample_ok, symmetric] by (simp_all add: eval_rules)
  have ga: "\<not> has_aggregate ucd_sample (normalize ucd_sample ?a)"
    and gb: "has_aggregate ucd_sample (normalize ucd_sample ?b)"
    unfolding re_search_aggregate_rx [OF sample_ok, symmetric] by (simp_all add: eval_rules)
  from bounding_rewrite [OF sample_ok wa ma sa] bounding_rewrite [OF sample_ok wb mb sb]
    bounding_rewrite [OF sample_ok wc mc sc] la ga gb lc sample_ok
  show ?thesis unfolding na nb nc by simp
qed

subsection \<open>C5: admitting an accepted text again\<close>

text \<open>
  C5, as the claim words it, asks that admitting the final text of an accepted candidate
  gives back exactly that text. A final text can end in whitespace (the candidate had
  whitespace before its trailing terminator, and a limit or an aggregate, so nothing was
  appended); admitting it again trims that whitespace.
\<close>

theorem readmission_changes_text:
  "admit ucd_sample (str_of ''SELECT count(*) FROM t ;'') =
     Accepted (str_of ''SELECT count(*) FROM t '') \<and>
   admit ucd_sample (str_of ''SELECT count(*) FROM t '') =
     Accepted (str_of ''SELECT count(*) FROM t'') \<and>
   admit ucd_sample (str_of ''SELECT count(*) FROM t '') \<noteq>
     Accepted (str_of ''SELECT count(*) FROM t '')"
  by (simp add: eval_rules)

text \<open>
  C5, amended. Admitting the final text of an accepted candidate accepts it again, with the
  final text without its trailing whitespace: with exactly the same text whenever the final
  text does not end in whitespace, which is the case whenever \<^verbatim>\<open> LIMIT 200\<close> was appended.
  \<^verbatim>\<open> LIMIT 200\<close> is never appended a second time.
\<close>

theorem readmission:
  assumes ok: "ucd_ok U" and acc: "admit U sql = Accepted t"
  shows "admit U t = Accepted (rstrip_space U t) \<and>
         (t = normalize U sql @ str_of '' LIMIT 200'' \<or> \<not> is_space U (last t) \<longrightarrow>
            admit U t = Accepted t)"
proof -
  let ?s = "normalize U sql"
  from acc have w: "\<not> has_write_keyword U ?s" and m: "ch CHR '';'' \<notin> set ?s"
    and sel: "begins_with_select U ?s"
    and t: "t = (if \<not> has_limit_clause U ?s \<and> \<not> has_aggregate U ?s
                 then ?s @ str_of '' LIMIT 200'' else ?s)"
    by (auto simp add: admit_cases [OF ok] split: if_splits)
  have ne: "?s \<noteq> []"
  proof
    assume "?s = []"
    with sel show False
      by (auto simp add: begins_with_select_def same_word_def)
  qed
  have main: "admit U t = Accepted (rstrip_space U t)"
  proof (cases "\<not> has_limit_clause U ?s \<and> \<not> has_aggregate U ?s")
    case True
    with t have t': "t = ?s @ str_of '' LIMIT 200''" by simp
    have n: "normalize U t = t" and r: "rstrip_space U t = t"
      unfolding t' using normalize_limit [OF ok refl ne m] by simp_all
    have "has_write_keyword U t = has_write_keyword U ?s"
      unfolding t' re_search_write_rx [OF ok, symmetric] by (rule re_search_write_rx_limit [OF ok])
    with w have "\<not> has_write_keyword U t" by simp
    moreover have "ch CHR '';'' \<notin> set t" using m unfolding t' by (simp add: str_of_def ch_def)
    moreover have "begins_with_select U t"
      unfolding t' using ok sel by (rule begins_with_select_limit)
    moreover have "has_limit_clause U t" unfolding t' by (rule has_limit_clause_limit [OF ok])
    ultimately show ?thesis using n r by (simp add: admit_cases [OF ok, where sql = t])
  next
    case False
    with t have t': "t = ?s" by simp
    have n: "normalize U t = rstrip_space U t"
      unfolding t' by (rule normalize_again [OF refl m])
    obtain ws where s: "?s = rstrip_space U ?s @ ws" and sp: "\<forall>c \<in> set ws. is_space U c"
      using rstrip_space_split [where s = ?s and U = U] by blast
    let ?r = "rstrip_space U ?s"
    have "\<not> has_write_keyword U ?r"
    proof
      assume "has_write_keyword U ?r"
      with ok have "has_write_keyword U (?r @ ws)" using sp by (rule has_write_keyword_spaces)
      with s w show False by simp
    qed
    moreover have "ch CHR '';'' \<notin> set ?r" using m s by (metis Un_iff set_append)
    moreover have "begins_with_select U ?r"
      using sel s sp begins_with_select_spaces [OF ok, where s = ?r and ws = ws] by simp
    moreover have "has_limit_clause U ?r \<or> has_aggregate U ?r"
      using False s sp has_limit_clause_spaces [OF ok, where s = ?r and ws = ws]
        has_aggregate_spaces [OF ok, where s = ?r and ws = ws]
      by auto
    ultimately show ?thesis
      using n unfolding t' by (auto simp add: admit_cases [OF ok, where sql = ?s])
  qed
  moreover have "rstrip_space U t = t"
    if "t = ?s @ str_of '' LIMIT 200'' \<or> \<not> is_space U (last t)"
    using that normalize_limit(2) [OF ok refl ne m] rstrip_space_id [where s = t and U = U]
    by auto
  ultimately show ?thesis by simp
qed

theorem readmission_witness:
  "ucd_ok ucd_sample \<and>
   admit ucd_sample (str_of ''SELECT id FROM customers'') =
     Accepted (str_of ''SELECT id FROM customers LIMIT 200'') \<and>
   admit ucd_sample (str_of ''SELECT id FROM customers LIMIT 200'') =
     Accepted (str_of ''SELECT id FROM customers LIMIT 200'') \<and>
   admit ucd_sample (str_of ''SELECT count(*) FROM t ;'') =
     Accepted (str_of ''SELECT count(*) FROM t '') \<and>
   admit ucd_sample (str_of ''SELECT count(*) FROM t '') =
     Accepted (rstrip_space ucd_sample (str_of ''SELECT count(*) FROM t '')) \<and>
   rstrip_space ucd_sample (str_of ''SELECT count(*) FROM t '') = str_of ''SELECT count(*) FROM t''"
proof -
  have a: "admit ucd_sample (str_of ''SELECT id FROM customers'') =
      Accepted (str_of ''SELECT id FROM customers LIMIT 200'')"
    by (simp add: eval_rules)
  have b: "admit ucd_sample (str_of ''SELECT count(*) FROM t ;'') =
      Accepted (str_of ''SELECT count(*) FROM t '')"
    by (simp add: eval_rules)
  have n: "normalize ucd_sample (str_of ''SELECT id FROM customers'') @ str_of '' LIMIT 200'' =
      str_of ''SELECT id FROM customers LIMIT 200''"
    by (simp add: eval_rules)
  have r: "rstrip_space ucd_sample (str_of ''SELECT count(*) FROM t '') =
      str_of ''SELECT count(*) FROM t''"
    by (simp add: rstrip_space_def eval_rules)
  have a2: "admit ucd_sample (str_of ''SELECT id FROM customers LIMIT 200'') =
      Accepted (str_of ''SELECT id FROM customers LIMIT 200'')"
    using readmission [OF sample_ok a] n [symmetric] by blast
  have b2: "admit ucd_sample (str_of ''SELECT count(*) FROM t '') =
      Accepted (rstrip_space ucd_sample (str_of ''SELECT count(*) FROM t ''))"
    using readmission [OF sample_ok b] by blast
  from a b a2 b2 r sample_ok show ?thesis by blast
qed

subsection \<open>C6: the order of the rules\<close>

text \<open>
  C6. The rules are tried in the order write keyword, multiple statements, SELECT prefix,
  bounding rewrite, and the first that applies gives the verdict: a write keyword gives
  \<open>WriteOperationForbidden\<close> whatever else holds of the text; without one, a remaining
  terminator gives \<open>MultipleStatementsForbidden\<close> whether or not the text begins with SELECT;
  without either, a text that does not begin with SELECT gives \<open>OnlySelectAllowed\<close>; and a
  text that passes all three is accepted.
\<close>

theorem first_rule_wins:
  assumes "ucd_ok U"
  shows
    "(has_write_keyword U (normalize U sql) \<longrightarrow> admit U sql = Rejected WriteOperationForbidden) \<and>
     (\<not> has_write_keyword U (normalize U sql) \<and> ch CHR '';'' \<in> set (normalize U sql) \<longrightarrow>
        admit U sql = Rejected MultipleStatementsForbidden) \<and>
     (\<not> has_write_keyword U (normalize U sql) \<and> ch CHR '';'' \<notin> set (normalize U sql) \<and>
      \<not> begins_with_select U (normalize U sql) \<longrightarrow> admit U sql = Rejected OnlySelectAllowed) \<and>
     (\<not> has_write_keyword U (normalize U sql) \<and> ch CHR '';'' \<notin> set (normalize U sql) \<and>
      begins_with_select U (normalize U sql) \<longrightarrow> (\<exists>t. admit U sql = Accepted t))"
  by (simp add: admit_cases [OF assms])

theorem first_rule_wins_witness:
  "ucd_ok ucd_sample \<and>
   has_write_keyword ucd_sample (normalize ucd_sample (str_of ''DELETE FROM orders WHERE id=1'')) \<and>
   \<not> begins_with_select ucd_sample (normalize ucd_sample (str_of ''DELETE FROM orders WHERE id=1'')) \<and>
   admit ucd_sample (str_of ''DELETE FROM orders WHERE id=1'') = Rejected WriteOperationForbidden \<and>
   has_write_keyword ucd_sample (normalize ucd_sample (str_of ''SELECT 1; DROP TABLE t'')) \<and>
   ch CHR '';'' \<in> set (normalize ucd_sample (str_of ''SELECT 1; DROP TABLE t'')) \<and>
   admit ucd_sample (str_of ''SELECT 1; DROP TABLE t'') = Rejected WriteOperationForbidden \<and>
   \<not> has_write_keyword ucd_sample (normalize ucd_sample (str_of ''SHOW TABLES; SELECT 1'')) \<and>
   ch CHR '';'' \<in> set (normalize ucd_sample (str_of ''SHOW TABLES; SELECT 1'')) \<and>
   \<not> begins_with_select ucd_sample (normalize ucd_sample (str_of ''SHOW TABLES; SELECT 1'')) \<and>
   admit ucd_sample (str_of ''SHOW TABLES; SELECT 1'') = Rejected MultipleStatementsForbidden"
proof -
  let ?a = "str_of ''DELETE FROM orders WHERE id=1''"
  let ?b = "str_of ''SELECT 1; DROP TABLE t''"
  let ?c = "str_of ''SHOW TABLES; SELECT 1''"
  have w: "has_write_keyword ucd_sample (normalize ucd_sample ?a)"
    "has_write_keyword ucd_sample (normalize ucd_sample ?b)"
    "\<not> has_write_keyword ucd_sample (normalize ucd_sample ?c)"
    unfolding re_search_write_rx [OF sample_ok, symmetric] by (simp_all add: eval_rules)
  have m: "ch CHR '';'' \<in> set (normalize ucd_sample ?b)"
    "ch CHR '';'' \<in> set (normalize ucd_sample ?c)"
    by (simp_all add: eval_rules)
  have s: "\<not> begins_with_select ucd_sample (normalize ucd_sample ?a)"
    "\<not> begins_with_select ucd_sample (normalize ucd_sample ?c)"
    unfolding re_match_select_rx [OF sample_ok, symmetric] by (simp_all add: eval_rules)
  from w m s sample_ok first_rule_wins [OF sample_ok, of ?a] first_rule_wins [OF sample_ok, of ?b]
    first_rule_wins [OF sample_ok, of ?c]
  show ?thesis by blast
qed

subsection \<open>C7: every failure becomes a value\<close>

text \<open>
  C7. For every engine and every input the method returns a value; no exception leaves it.
  A rejected candidate gives the rejection string. For an accepted candidate, an exception
  raised by \<^verbatim>\<open>engine.connect()\<close>, by \<^verbatim>\<open>exec_driver_sql\<close> or by \<^verbatim>\<open>fetchall\<close> gives the string
  \<^verbatim>\<open>ERROR: \<close> followed by the text of the exception, and a successful execution gives the
  dictionary of the columns and the rows.
\<close>

theorem failures_become_values:
  "(\<exists>out. fst (run U eng sql) = Inr out) \<and>
   (\<forall>r. admit U sql = Rejected r \<longrightarrow> fst (run U eng sql) = Inr (Str (reason_text r))) \<and>
   (\<forall>t. admit U sql = Accepted t \<longrightarrow>
      (\<forall>e. connect eng = Some e \<longrightarrow>
         fst (run U eng sql) = Inr (Str (str_of ''ERROR: '' @ message e))) \<and>
      (\<forall>e. connect eng = None \<and> exec_driver_sql eng t = Inl e \<longrightarrow>
         fst (run U eng sql) = Inr (Str (str_of ''ERROR: '' @ message e))) \<and>
      (\<forall>res e. connect eng = None \<and> exec_driver_sql eng t = Inr res \<and> fetchall res = Inl e \<longrightarrow>
         fst (run U eng sql) = Inr (Str (str_of ''ERROR: '' @ message e))) \<and>
      (\<forall>res rws. connect eng = None \<and> exec_driver_sql eng t = Inr res \<and> fetchall res = Inr rws \<longrightarrow>
         fst (run U eng sql) = Inr (Payload (keys res) rws)))"
  by (auto simp add: run_admit with_block_def Let_def
      split: verdict.splits option.splits sum.splits prod.splits)

theorem failures_become_values_witness:
  "admit ucd_sample (str_of ''SELECT nope FROM customers'') =
     Accepted (str_of ''SELECT nope FROM customers LIMIT 200'') \<and>
   fst (run ucd_sample
          \<lparr>connect = None,
           exec_driver_sql =
             (\<lambda>s. Inl (Exception (str_of ''no such column: nope'')) :: exn + nat cursor_result)\<rparr>
          (str_of ''SELECT nope FROM customers'')) =
     Inr (Str (str_of ''ERROR: '' @ str_of ''no such column: nope'')) \<and>
   fst (run ucd_sample
          \<lparr>connect = None,
           exec_driver_sql = (\<lambda>s. Inr \<lparr>keys = [str_of ''id''], fetchall = Inr [[1::nat], [2]]\<rparr>)\<rparr>
          (str_of ''SELECT nope FROM customers'')) = Inr (Payload [str_of ''id''] [[1], [2]])"
proof -
  let ?q = "str_of ''SELECT nope FROM customers''"
  let ?e1 = "\<lparr>connect = None,
      exec_driver_sql =
        (\<lambda>s. Inl (Exception (str_of ''no such column: nope'')) :: exn + nat cursor_result)\<rparr>"
  let ?e2 = "\<lparr>connect = None,
      exec_driver_sql = (\<lambda>s. Inr \<lparr>keys = [str_of ''id''], fetchall = Inr [[1::nat], [2]]\<rparr>)\<rparr>"
  have a: "admit ucd_sample ?q = Accepted (str_of ''SELECT nope FROM customers LIMIT 200'')"
    by (simp add: eval_rules)
  from a failures_become_values [where U = ucd_sample and sql = ?q and eng = ?e1]
    failures_become_values [where U = ucd_sample and sql = ?q and eng = ?e2]
  show ?thesis by simp
qed

subsection \<open>C8: a rejected candidate never reaches the database\<close>

text \<open>
  C8. When the filter rejects, the method returns exactly the rejection string and makes no
  call to the database: no connection, no statement. When it accepts, the first call is the
  connection and the only statement sent is the final text. So a call to the database, and
  with it a dictionary of columns and rows, occurs only for an accepted candidate.
\<close>

theorem rejected_never_executes:
  "(\<forall>r. admit U sql = Rejected r \<longrightarrow> run U eng sql = (Inr (Str (reason_text r)), [])) \<and>
   (\<forall>t. admit U sql = Accepted t \<longrightarrow>
      hd (snd (run U eng sql)) = Connect \<and>
      (\<forall>s. Execute s \<in> set (snd (run U eng sql)) \<longrightarrow> s = t)) \<and>
   (snd (run U eng sql) \<noteq> [] \<longrightarrow> (\<exists>t. admit U sql = Accepted t)) \<and>
   ((\<exists>cols rws. fst (run U eng sql) = Inr (Payload cols rws)) \<longrightarrow> (\<exists>t. admit U sql = Accepted t))"
proof (cases "admit U sql")
  case (Rejected r)
  then have "run U eng sql = (Inr (Str (reason_text r)), [])" by (simp add: run_admit)
  with Rejected show ?thesis by simp
next
  case (Accepted t)
  then have "snd (run U eng sql) = snd (with_block eng t)" by (rule run_accepted_trace)
  with with_block_trace [of eng t]
  have "snd (run U eng sql) = [Connect] \<or> snd (run U eng sql) = [Connect, Execute t, Close]"
    by simp
  with Accepted show ?thesis by auto
qed

theorem rejected_never_executes_witness:
  "admit ucd_sample (str_of ''UPDATE orders SET status='' @ [39, ch CHR ''x'', 39]) =
     Rejected WriteOperationForbidden \<and>
   run ucd_sample
     \<lparr>connect = None,
      exec_driver_sql = (\<lambda>s. Inr \<lparr>keys = [str_of ''id''], fetchall = Inr [[1::nat]]\<rparr>)\<rparr>
     (str_of ''UPDATE orders SET status='' @ [39, ch CHR ''x'', 39]) =
     (Inr (Str (str_of ''ERROR: write operations are not allowed.'')), []) \<and>
   admit ucd_sample (str_of ''SELECT id FROM customers'') =
     Accepted (str_of ''SELECT id FROM customers LIMIT 200'') \<and>
   snd (run ucd_sample
          \<lparr>connect = None,
           exec_driver_sql = (\<lambda>s. Inr \<lparr>keys = [str_of ''id''], fetchall = Inr [[1::nat]]\<rparr>)\<rparr>
          (str_of ''SELECT id FROM customers'')) =
     [Connect, Execute (str_of ''SELECT id FROM customers LIMIT 200''), Close]"
proof -
  let ?u = "str_of ''UPDATE orders SET status='' @ [39, ch CHR ''x'', 39]"
  let ?q = "str_of ''SELECT id FROM customers''"
  let ?e = "\<lparr>connect = None,
      exec_driver_sql = (\<lambda>s. Inr \<lparr>keys = [str_of ''id''], fetchall = Inr [[1::nat]]\<rparr>)\<rparr>"
  have a: "admit ucd_sample ?u = Rejected WriteOperationForbidden" by (simp add: eval_rules)
  have b: "admit ucd_sample ?q = Accepted (str_of ''SELECT id FROM customers LIMIT 200'')"
    by (simp add: eval_rules)
  have c: "snd (run ucd_sample ?e ?q) =
     [Connect, Execute (str_of ''SELECT id FROM customers LIMIT 200''), Close]"
    by (simp add: run_accepted_trace [OF b] with_block_def)
  from a b c rejected_never_executes [where U = ucd_sample and sql = ?u and eng = ?e] show ?thesis
    by (simp add: reason_text_def)
qed

subsection \<open>C10: every accepted text is bounded\<close>

text \<open>
  C10. The final text of every accepted candidate contains a clause \<^verbatim>\<open>LIMIT <integer>\<close> as a
  whole word, up to case as \<^verbatim>\<open>re.I\<close> has it, or one of the aggregate constructs, which begins
  a word there; so it contains the limit clause or one of the tokens \<^verbatim>\<open>count(\<close>, \<^verbatim>\<open>group by\<close>,
  \<^verbatim>\<open>sum(\<close>, \<^verbatim>\<open>avg(\<close>, \<^verbatim>\<open>max(\<close>, \<^verbatim>\<open>min(\<close>. A text that the filter leaves as it is can have the
  clause or the token in the spelling that \<^verbatim>\<open>re.I\<close> takes for it, with a dotless i.
\<close>

theorem accepted_is_bounded:
  assumes "ucd_ok U" and "admit U sql = Accepted t"
  shows "(has_limit_clause U t \<or> has_aggregate U t) \<and>
         (has_limit_clause U t \<or> mentions_aggregate U t)"
proof -
  from assms have "has_limit_clause U t \<or> has_aggregate U t"
    by (auto simp add: admit_cases [OF assms(1)] has_limit_clause_limit [OF assms(1)]
        split: if_splits)
  then show ?thesis using has_aggregate_mentions by blast
qed

theorem accepted_is_bounded_witness:
  "ucd_ok ucd_sample \<and>
   admit ucd_sample (str_of ''SELECT id FROM customers'') =
     Accepted (str_of ''SELECT id FROM customers LIMIT 200'') \<and>
   (has_limit_clause ucd_sample (str_of ''SELECT id FROM customers LIMIT 200'') \<or>
    has_aggregate ucd_sample (str_of ''SELECT id FROM customers LIMIT 200'')) \<and>
   admit ucd_sample (str_of ''SELECT id FROM t l'' @ [305] @ str_of ''m'' @ [305] @ str_of ''t 5'') =
     Accepted (str_of ''SELECT id FROM t l'' @ [305] @ str_of ''m'' @ [305] @ str_of ''t 5'') \<and>
   has_limit_clause ucd_sample
     (str_of ''SELECT id FROM t l'' @ [305] @ str_of ''m'' @ [305] @ str_of ''t 5'') \<and>
   admit ucd_sample (str_of ''SELECT m'' @ [305] @ str_of ''n(x) FROM t'') =
     Accepted (str_of ''SELECT m'' @ [305] @ str_of ''n(x) FROM t'') \<and>
   \<not> has_limit_clause ucd_sample (str_of ''SELECT m'' @ [305] @ str_of ''n(x) FROM t'') \<and>
   mentions_aggregate ucd_sample (str_of ''SELECT m'' @ [305] @ str_of ''n(x) FROM t'')"
proof -
  let ?b = "str_of ''SELECT id FROM t l'' @ [305] @ str_of ''m'' @ [305] @ str_of ''t 5''"
  let ?c = "str_of ''SELECT m'' @ [305] @ str_of ''n(x) FROM t''"
  have a: "admit ucd_sample (str_of ''SELECT id FROM customers'') =
      Accepted (str_of ''SELECT id FROM customers LIMIT 200'')"
    by (simp add: eval_rules)
  have b: "admit ucd_sample ?b = Accepted ?b" by (simp add: eval_rules)
  have c: "admit ucd_sample ?c = Accepted ?c" by (simp add: eval_rules)
  have lb: "has_limit_clause ucd_sample ?b"
    unfolding re_search_limit_rx [OF sample_ok, symmetric] by (simp add: eval_rules)
  have lc: "\<not> has_limit_clause ucd_sample ?c"
    unfolding re_search_limit_rx [OF sample_ok, symmetric] by (simp add: eval_rules)
  from a b c lb lc sample_ok accepted_is_bounded [OF sample_ok a]
    accepted_is_bounded [OF sample_ok b] accepted_is_bounded [OF sample_ok c]
  show ?thesis by blast
qed

end
